theory Spec2Isabelle
  imports Main "HOL-Library.Monad_Syntax" "HOL-Library.Sublist"
begin

text \<open>
  A model of the lazy, memoizing sequence of \<open>src/seq.ts\<close> and of the Option and Result
  values it returns. Conventions of the model:
  \<^item> the mutable state of a sequence object (its cache, and the state of the sequences its
    source draws from) is passed in and returned by every operation that may touch it;
  \<^item> an operation that may run forever returns an \<open>option\<close>: \<open>None\<close> is a call that does
    not return;
  \<^item> an exception is a value: a function that may throw returns a sum, \<open>Inl\<close> the error;
  \<^item> indices, sizes and caps are integers (\<open>int\<close>); the numbers \<open>NaN\<close> and the fractions
    are outside the model, and \<open>Infinity\<close> appears only as a bound: the default end of
    \<open>slice\<close> and the end of a \<open>range\<close> that never stops.
\<close>

section \<open>Values, Option and Result\<close>

text \<open>
  A JavaScript value of element type \<open>T\<close> is either one of the two nil values or a proper
  value. Sequences may hold nil values (an array given to \<open>fromArray\<close> may contain
  \<open>undefined\<close>), and indexing an array out of range yields \<open>undefined\<close>.
\<close>

datatype 'a "value" = Undefined | Null | Value 'a

fun isNil :: "'a value \<Rightarrow> bool" where
  "isNil Undefined = True"
| "isNil Null = True"
| "isNil (Value x) = False"

datatype Error = Error string

text \<open>
  \<open>monads/option.ts\<close>: \<open>Option<T> = None | Some<T>\<close>, the objects tagged \<open>'NONE'\<close> (the shared
  singleton \<open>none\<close>) and \<open>'SOME'\<close>.
\<close>

datatype 't Option = Opt_NONE | Opt_SOME 't

text \<open>
  \<open>some\<close> fails (throws) on a nil value. \<open>optional\<close> maps nil to \<open>none\<close> and calls \<open>some\<close>
  on the other values only, where \<open>some\<close> does not throw: the branch \<open>Inl\<close> of its \<open>case\<close>
  is never taken.
\<close>

definition some :: "'a value \<Rightarrow> Error + 'a value Option" where
  "some v = (if isNil v then Inl (Error ''Cannot create Some with null or undefined'')
             else Inr (Opt_SOME v))"

definition optional :: "'a value \<Rightarrow> 'a value Option" where
  "optional v = (if v = Undefined \<or> v = Null then Opt_NONE
                 else (case some v of Inr opt \<Rightarrow> opt | Inl e \<Rightarrow> Opt_NONE))"

definition isNone :: "'t Option \<Rightarrow> bool" where
  "isNone opt = (case opt of Opt_NONE \<Rightarrow> True | Opt_SOME v \<Rightarrow> False)"

definition fold_Option :: "('t \<Rightarrow> 'u) \<Rightarrow> 'u \<Rightarrow> 't Option \<Rightarrow> 'u" where
  "fold_Option onSome onNone opt = (case opt of Opt_NONE \<Rightarrow> onNone | Opt_SOME v \<Rightarrow> onSome v)"

text \<open>
  \<open>monads/safe.ts\<close>: \<open>Result<T> = Failure | Success<T>\<close>. \<open>attempt\<close> runs a thunk and turns
  a thrown error into the failure variant; the thunk's outcome is a sum, \<open>Inl\<close> the error
  thrown.
\<close>

datatype 't Result = FAILURE Error | SUCCESS 't

definition attempt :: "Error + 't \<Rightarrow> 't Result" where
  "attempt outcome = (case outcome of Inr v \<Rightarrow> SUCCESS v | Inl e \<Rightarrow> FAILURE e)"

section \<open>Cursors and the memoizing engine\<close>

text \<open>
  \<open>IteratorResult<T>\<close>: \<open>{done: true}\<close> or \<open>{done: false, value}\<close>.
\<close>

datatype 't IteratorResult = Done | Yield 't

text \<open>
  A source is the factory handed to \<open>create\<close>. Every call of the factory returns a cursor
  in the state \<open>fresh\<close>; \<open>next\<close> advances a cursor. A cursor may read and write state
  outside itself (the caches of the sequences it draws from, a counter): that state is
  the world \<open>'w\<close>, passed in and returned. A call that does not return is \<open>None\<close>.
\<close>

record ('a, 'c, 'w) Source =
  fresh :: "'c"
  "next" :: "'c \<Rightarrow> 'w \<Rightarrow> ('a value IteratorResult \<times> 'c \<times> 'w) option"

text \<open>
  A sequence object is its \<open>get\<close>; every other method of the object is written in terms of
  \<open>get\<close> and of the iterator, which itself calls \<open>get\<close>. The state \<open>'s\<close> of a sequence is
  its private cache together with the world of its source.
\<close>

record ('a, 's) Seq =
  get :: "int \<Rightarrow> 's \<Rightarrow> ('a value Option \<times> 's) option"

text \<open>\<open>cache[idx]\<close>: reading a JavaScript array outside its bounds gives \<open>undefined\<close>.\<close>

definition array_get :: "'a value list \<Rightarrow> int \<Rightarrow> 'a value" where
  "array_get xs i = (if 0 \<le> i \<and> i < int (length xs) then xs ! nat i else Undefined)"

text \<open>\<open>for (let i = 0; i < cache.length; i++) it.next();\<close>\<close>

function fast_forward ::
  "('a, 'c, 'w) Source \<Rightarrow> nat \<Rightarrow> nat \<Rightarrow> 'c \<Rightarrow> 'w \<Rightarrow> ('c \<times> 'w) option" where
  "fast_forward src i n it w =
     (if i < n then
        do { (r, it', w') \<leftarrow> next src it w;
             fast_forward src (i + 1) n it' w' }
      else Some (it, w))"
  by pat_completeness auto
termination
  by (relation "measure (\<lambda>(src, i, n, it, w). n - i)") auto

declare fast_forward.simps [simp del]

text \<open>
  \<open>while (cache.length <= idx) { const n = it.next(); if (n.done) return none;
  cache.push(n.value); } return optional(cache[idx]);\<close>
\<close>

function fill ::
  "('a, 'c, 'w) Source \<Rightarrow> int \<Rightarrow> 'a value list \<Rightarrow> 'c \<Rightarrow> 'w
     \<Rightarrow> ('a value Option \<times> 'a value list \<times> 'w) option" where
  "fill src idx cache it w =
     (if int (length cache) \<le> idx then
        do { (n, it', w') \<leftarrow> next src it w;
             case n of
               Done \<Rightarrow> Some (Opt_NONE, cache, w')
             | Yield v \<Rightarrow> fill src idx (cache @ [v]) it' w' }
      else Some (optional (array_get cache idx), cache, w))"
  by pat_completeness auto
termination
  by (relation "measure (\<lambda>(src, idx, cache, it, w). nat (idx + 1 - int (length cache)))") auto

declare fill.simps [simp del]

definition create :: "('a, 'c, 'w) Source \<Rightarrow> ('a, 'a value list \<times> 'w) Seq" where
  "create src =
     \<lparr> get = (\<lambda>idx (cache, w).
         if idx < int (length cache) then Some (optional (array_get cache idx), cache, w)
         else do { (it, w') \<leftarrow> fast_forward src 0 (length cache) (fresh src) w;
                   fill src idx cache it w' }) \<rparr>"

text \<open>A sequence that was just built has an empty cache.\<close>

definition new_cache :: "'w \<Rightarrow> 'a value list \<times> 'w" where
  "new_cache w = ([], w)"

text \<open>
  The iterator of a sequence (\<open>[Symbol.iterator]()\<close>) is a counter \<open>i\<close>, starting at 0;
  \<open>next()\<close> is \<open>fold(v => ({done: false, value: v}), () => ({done: true}))(get(i++))\<close>.
\<close>

definition iterator_next ::
  "('a, 's) Seq \<Rightarrow> int \<Rightarrow> 's \<Rightarrow> ('a value IteratorResult \<times> int \<times> 's) option" where
  "iterator_next sq i s =
     do { (opt, s') \<leftarrow> get sq i s;
          Some (fold_Option Yield Done opt, i + 1, s') }"

definition head :: "('a, 's) Seq \<Rightarrow> 's \<Rightarrow> ('a value Option \<times> 's) option" where
  "head sq s = get sq 0 s"

text \<open>
  \<open>find(fn) { for (const v of this) if (fn(v)) return some(v); return none }\<close> and
  \<open>last() { let last = none; for (const value of iterable) last = some(value); return last }\<close>.
  Both call \<open>some\<close>, which may throw.
\<close>

partial_function (option) find_loop ::
  "('a, 's) Seq \<Rightarrow> ('a value \<Rightarrow> bool) \<Rightarrow> int \<Rightarrow> 's
     \<Rightarrow> ((Error + 'a value Option) \<times> 's) option" where
  "find_loop this fn it s =
     do { (n, it', s') \<leftarrow> iterator_next this it s;
          case n of
            Done \<Rightarrow> Some (Inr Opt_NONE, s')
          | Yield v \<Rightarrow> if fn v then Some (some v, s') else find_loop this fn it' s' }"

definition find_seq ::
  "('a, 's) Seq \<Rightarrow> ('a value \<Rightarrow> bool) \<Rightarrow> 's \<Rightarrow> ((Error + 'a value Option) \<times> 's) option" where
  "find_seq this fn s = find_loop this fn 0 s"

partial_function (option) last_loop ::
  "('a, 's) Seq \<Rightarrow> int \<Rightarrow> 'a value Option \<Rightarrow> 's
     \<Rightarrow> ((Error + 'a value Option) \<times> 's) option" where
  "last_loop iterable it lst s =
     do { (n, it', s') \<leftarrow> iterator_next iterable it s;
          case n of
            Done \<Rightarrow> Some (Inr lst, s')
          | Yield v \<Rightarrow>
              (case some v of
                 Inl e \<Rightarrow> Some (Inl e, s')
               | Inr opt \<Rightarrow> last_loop iterable it' opt s') }"

definition last_seq ::
  "('a, 's) Seq \<Rightarrow> 's \<Rightarrow> ((Error + 'a value Option) \<times> 's) option" where
  "last_seq iterable s = last_loop iterable 0 Opt_NONE s"

section \<open>Generators and structural combinators\<close>

text \<open>\<open>fromArray\<close>: the cursor is an index into the copied array.\<close>

definition fromArray_source :: "'a value list \<Rightarrow> ('a, nat, unit) Source" where
  "fromArray_source cloned =
     \<lparr> fresh = 0,
       next = (\<lambda>index w.
         if index < length cloned then Some (Yield (cloned ! index), index + 1, w)
         else Some (Done, index, w)) \<rparr>"

definition fromArray :: "'a value list \<Rightarrow> ('a, 'a value list \<times> unit) Seq" where
  "fromArray arr = create (fromArray_source arr)"

text \<open>A JavaScript number used as a bound: an integer or \<open>Infinity\<close>.\<close>

datatype number = Num int | Infinity

fun num_le :: "number \<Rightarrow> int \<Rightarrow> bool" where
  "num_le (Num a) b = (a \<le> b)"
| "num_le Infinity b = False"

text \<open>
  \<open>unfold(fn)(seed)\<close>: the cursor holds \<open>state\<close>, the option \<open>fn\<close> returned last, \<open>fn(seed)\<close>
  at first; \<open>next()\<close> reports done on \<open>none\<close>, and otherwise yields the value of the pair
  and replaces \<open>state\<close> by \<open>fn(newState)\<close>. \<open>range(start, end)\<close> unfolds
  \<open>state => state >= end ? none : some([state, state + 1])\<close> from \<open>start\<close>;
  \<open>range(0, Infinity)\<close> never ends.
\<close>

definition unfold_source ::
  "('u \<Rightarrow> ('a value \<times> 'u) Option) \<Rightarrow> 'u \<Rightarrow> ('a, ('a value \<times> 'u) Option, unit) Source" where
  "unfold_source fn seed =
     \<lparr> fresh = fn seed,
       next = (\<lambda>state w.
         if isNone state then Some (Done, state, w)
         else (case state of
                 Opt_SOME (v, newState) \<Rightarrow> Some (Yield v, fn newState, w)
               | Opt_NONE \<Rightarrow> Some (Done, state, w))) \<rparr>"

definition unfold ::
  "('u \<Rightarrow> ('a value \<times> 'u) Option) \<Rightarrow> 'u \<Rightarrow> ('a, 'a value list \<times> unit) Seq" where
  "unfold fn seed = create (unfold_source fn seed)"

definition range :: "int \<Rightarrow> number \<Rightarrow> (int, int value list \<times> unit) Seq" where
  "range start end =
     unfold (\<lambda>state. if num_le end state then Opt_NONE else Opt_SOME (Value state, state + 1)) start"

text \<open>\<open>drop(n)\<close>: the cursor is \<open>i\<close>, starting at \<open>n\<close>; \<open>next()\<close> reads \<open>iterable.get(i++)\<close>.\<close>

definition drop_source :: "('a, 's) Seq \<Rightarrow> int \<Rightarrow> ('a, int, 's) Source" where
  "drop_source iterable n =
     \<lparr> fresh = n,
       next = (\<lambda>i s. do { (opt, s') \<leftarrow> get iterable i s;
                           Some (fold_Option Yield Done opt, i + 1, s') }) \<rparr>"

definition drop_seq :: "('a, 's) Seq \<Rightarrow> int \<Rightarrow> ('a, 'a value list \<times> 's) Seq" where
  "drop_seq iterable n = create (drop_source iterable n)"






text \<open>
  An object seen from a world that holds its state as a component: \<open>fst_view\<close> and
  \<open>snd_view\<close> let a sequence act on the first and on the second component of a pair.
  Two objects that share nothing act on the two components of the world; a sequence
  \<open>a\<close> seen from the state of a sequence derived from it (whose state is its own cache
  paired with the state of \<open>a\<close>) is \<open>snd_view a\<close>.
\<close>

definition fst_view :: "('a, 's) Seq \<Rightarrow> ('a, 's \<times> 't) Seq" where
  "fst_view sq = \<lparr> get = (\<lambda>i (s, t). do { (r, s') \<leftarrow> get sq i s; Some (r, (s', t)) }) \<rparr>"






section \<open>Aggregate operations\<close>

text \<open>
  \<open>chunk(size)\<close> and \<open>window(size)\<close> throw at the call when \<open>size <= 0\<close>; otherwise they
  return a sequence of sequences. The cursor of \<open>chunk\<close> holds the iterator and the array
  \<open>chunk\<close>; the inner loop returns \<open>None\<close> for \<open>return {done: true}\<close> and the filled array
  when it leaves the loop.
\<close>

function chunk_fill ::
  "('a, 's) Seq \<Rightarrow> int \<Rightarrow> int \<Rightarrow> 'a value list \<Rightarrow> 's
     \<Rightarrow> ('a value list option \<times> int \<times> 's) option" where
  "chunk_fill iterable sz it chunk s =
     (if int (length chunk) < sz then
        do { (n, it', s') \<leftarrow> iterator_next iterable it s;
             case n of
               Done \<Rightarrow> (if length chunk = 0 then Some (None, it', s') else Some (Some chunk, it', s'))
             | Yield v \<Rightarrow> chunk_fill iterable sz it' (chunk @ [v]) s' }
      else Some (Some chunk, it, s))"
  by pat_completeness auto
termination
  by (relation "measure (\<lambda>(iterable, sz, it, chunk, s). nat (sz - int (length chunk)))") auto

declare chunk_fill.simps [simp del]

definition chunk_source ::
  "('a, 's) Seq \<Rightarrow> int
     \<Rightarrow> (('a, 'a value list \<times> unit) Seq, int \<times> 'a value list, 's) Source" where
  "chunk_source iterable sz =
     \<lparr> fresh = (0, []),
       next = (\<lambda>(it, chunk) s.
         do { (r, it', s') \<leftarrow> chunk_fill iterable sz it chunk s;
              case r of
                None \<Rightarrow> Some (Done, (it', chunk), s')
              | Some filled \<Rightarrow> Some (Yield (Value (fromArray filled)), (it', []), s') }) \<rparr>"

definition chunk ::
  "('a, 's) Seq \<Rightarrow> int
     \<Rightarrow> Error + (('a, 'a value list \<times> unit) Seq,
                  ('a, 'a value list \<times> unit) Seq value list \<times> 's) Seq" where
  "chunk iterable sz =
     (if sz \<le> 0 then Inl (Error ''Chunk size must be greater than 0'')
      else Inr (create (chunk_source iterable sz)))"

text \<open>
  The cursor of \<open>window\<close> holds the iterator and \<open>buffer\<close>, which survives from one
  \<open>next()\<close> to the following one; \<open>buffer.shift()\<close> removes its first element.
\<close>

function window_fill ::
  "('a, 's) Seq \<Rightarrow> int \<Rightarrow> int \<Rightarrow> 'a value list \<Rightarrow> 's
     \<Rightarrow> (bool \<times> int \<times> 'a value list \<times> 's) option" where
  "window_fill iterable sz it buffer s =
     (if int (length buffer) < sz then
        do { (n, it', s') \<leftarrow> iterator_next iterable it s;
             case n of
               Done \<Rightarrow> Some (True, it', buffer, s')
             | Yield v \<Rightarrow> window_fill iterable sz it' (buffer @ [v]) s' }
      else Some (False, it, buffer, s))"
  by pat_completeness auto
termination
  by (relation "measure (\<lambda>(iterable, sz, it, buffer, s). nat (sz - int (length buffer)))") auto

declare window_fill.simps [simp del]

definition window_source ::
  "('a, 's) Seq \<Rightarrow> int
     \<Rightarrow> (('a, 'a value list \<times> unit) Seq, int \<times> 'a value list, 's) Source" where
  "window_source iterable sz =
     \<lparr> fresh = (0, []),
       next = (\<lambda>(it, buffer) s.
         do { (ended, it', buffer', s') \<leftarrow> window_fill iterable sz it buffer s;
              if ended then Some (Done, (it', buffer'), s')
              else Some (Yield (Value (fromArray buffer')), (it', tl buffer'), s') }) \<rparr>"

definition window ::
  "('a, 's) Seq \<Rightarrow> int
     \<Rightarrow> Error + (('a, 'a value list \<times> unit) Seq,
                  ('a, 'a value list \<times> unit) Seq value list \<times> 's) Seq" where
  "window iterable sz =
     (if sz \<le> 0 then Inl (Error ''Window size must be greater than 0'')
      else Inr (create (window_source iterable sz)))"

text \<open>
  \<open>sliceBy(fn)(seq)\<close>: the cursor holds the iterator and the flag \<open>done\<close>. The inner loop
  \<open>while (true)\<close> fills \<open>bucket\<close> until the iterator is done (the flag is set) or an
  element satisfies \<open>fn\<close> (the element is not pushed).
\<close>

partial_function (option) sliceBy_bucket ::
  "('a value \<Rightarrow> bool) \<Rightarrow> ('a, 's) Seq \<Rightarrow> int \<Rightarrow> 'a value list \<Rightarrow> 's
     \<Rightarrow> (bool \<times> 'a value list \<times> int \<times> 's) option" where
  "sliceBy_bucket fn sq it bucket s =
     do { (n, it', s') \<leftarrow> iterator_next sq it s;
          case n of
            Done \<Rightarrow> Some (True, bucket, it', s')
          | Yield v \<Rightarrow>
              if fn v then Some (False, bucket, it', s')
              else sliceBy_bucket fn sq it' (bucket @ [v]) s' }"

definition sliceBy_source ::
  "('a value \<Rightarrow> bool) \<Rightarrow> ('a, 's) Seq
     \<Rightarrow> (('a, 'a value list \<times> unit) Seq, int \<times> bool, 's) Source" where
  "sliceBy_source fn sq =
     \<lparr> fresh = (0, False),
       next = (\<lambda>(it, done) s.
         if done then Some (Done, (it, done), s)
         else do { (done', bucket, it', s') \<leftarrow> sliceBy_bucket fn sq it [] s;
                   if done' \<and> length bucket = 0 then Some (Done, (it', done'), s')
                   else Some (Yield (Value (fromArray bucket)), (it', done'), s') }) \<rparr>"

definition sliceBy ::
  "('a value \<Rightarrow> bool) \<Rightarrow> ('a, 's) Seq
     \<Rightarrow> (('a, 'a value list \<times> unit) Seq, ('a, 'a value list \<times> unit) Seq value list \<times> 's) Seq" where
  "sliceBy fn sq = create (sliceBy_source fn sq)"

section \<open>Bounded operations\<close>

text \<open>
  \<open>length(max = 10_000)\<close>: \<open>for (const _ of this) { if (++c > max) throw new Error("Too large"); }
  return c;\<close> inside \<open>attempt\<close>.
\<close>

function length_loop ::
  "('a, 's) Seq \<Rightarrow> int \<Rightarrow> int \<Rightarrow> int \<Rightarrow> 's \<Rightarrow> ((Error + int) \<times> 's) option" where
  "length_loop this mx it c s =
     do { (n, it', s') \<leftarrow> iterator_next this it s;
          case n of
            Done \<Rightarrow> Some (Inr c, s')
          | Yield v \<Rightarrow>
              if c + 1 > mx then Some (Inl (Error ''Too large''), s')
              else length_loop this mx it' (c + 1) s' }"
  by pat_completeness auto
termination
  by (relation "measure (\<lambda>(this, mx, it, c, s). nat (mx - c))") auto

declare length_loop.simps [simp del]

definition length_seq ::
  "('a, 's) Seq \<Rightarrow> int option \<Rightarrow> 's \<Rightarrow> (int Result \<times> 's) option" where
  "length_seq this mx s =
     do { (r, s') \<leftarrow> length_loop this (case mx of None \<Rightarrow> 10000 | Some m \<Rightarrow> m) 0 0 s;
          Some (attempt r, s') }"

text \<open>
  \<open>reverse(max = 10_000)\<close> and \<open>toArray(seq, max)\<close> share one loop, up to the message of
  the error: \<open>for (const val of iterable) { arr.push(val); count++; if (count > max)
  throw new Error(msg); }\<close>.
\<close>

function walk ::
  "('a, 's) Seq \<Rightarrow> int \<Rightarrow> string \<Rightarrow> int \<Rightarrow> 'a value list \<Rightarrow> int \<Rightarrow> 's
     \<Rightarrow> ((Error + 'a value list) \<times> 's) option" where
  "walk iterable mx msg it arr count s =
     do { (n, it', s') \<leftarrow> iterator_next iterable it s;
          case n of
            Done \<Rightarrow> Some (Inr arr, s')
          | Yield v \<Rightarrow>
              if count + 1 > mx then Some (Inl (Error msg), s')
              else walk iterable mx msg it' (arr @ [v]) (count + 1) s' }"
  by pat_completeness auto
termination
  by (relation "measure (\<lambda>(iterable, mx, msg, it, arr, count, s). nat (mx - count))") auto

declare walk.simps [simp del]

definition reverse ::
  "('a, 's) Seq \<Rightarrow> int option \<Rightarrow> 's \<Rightarrow> (('a, 'a value list \<times> unit) Seq Result \<times> 's) option" where
  "reverse iterable mx s =
     do { (r, s') \<leftarrow> walk iterable (case mx of None \<Rightarrow> 10000 | Some m \<Rightarrow> m)
                        ''Cannot reverse an unbounded or very large sequence'' 0 [] 0 s;
          Some (attempt (case r of Inl e \<Rightarrow> Inl e | Inr arr \<Rightarrow> Inr (fromArray (rev arr))), s') }"

definition toArray ::
  "('a, 's) Seq \<Rightarrow> int option \<Rightarrow> 's \<Rightarrow> ('a value list Result \<times> 's) option" where
  "toArray sq mx s =
     do { (r, s') \<leftarrow> walk sq (case mx of None \<Rightarrow> 10000 | Some m \<Rightarrow> m)
                        ''Cannot convert an unbounded or very large sequence'' 0 [] 0 s;
          Some (attempt r, s') }"

section \<open>Materialization\<close>

text \<open>
  \<open>toArrayUnsafe(seq) = [...seq]\<close>: the spread takes the iterator of the sequence and calls
  \<open>next()\<close> until it reports done. On an infinite sequence the loop does not return.
\<close>

partial_function (option) spread ::
  "('a, 's) Seq \<Rightarrow> int \<Rightarrow> 'a value list \<Rightarrow> 's \<Rightarrow> ('a value list \<times> 's) option" where
  "spread sq i arr s =
     do { (n, i', s') \<leftarrow> iterator_next sq i s;
          case n of
            Done \<Rightarrow> Some (arr, s')
          | Yield v \<Rightarrow> spread sq i' (arr @ [v]) s' }"

definition toArrayUnsafe :: "('a, 's) Seq \<Rightarrow> 's \<Rightarrow> ('a value list \<times> 's) option" where
  "toArrayUnsafe sq s = spread sq 0 [] s"

section \<open>What a sequence denotes\<close>

text \<open>
  The elements a source produces are described by a function from positions to
  \<open>Some v\<close> (the cursor yields \<open>v\<close> there) or \<open>None\<close> (the cursor reports done). A position
  is live when no earlier position reports done.
\<close>

definition live :: "(nat \<Rightarrow> 'a value option) \<Rightarrow> nat \<Rightarrow> bool" where
  "live sem n \<longleftrightarrow> (\<forall>j<n. sem j \<noteq> None)"

definition cache_ok :: "(nat \<Rightarrow> 'a value option) \<Rightarrow> 'a value list \<Rightarrow> bool" where
  "cache_ok sem cache \<longleftrightarrow> (\<forall>j<length cache. sem j = Some (cache ! j))"

definition emit :: "'a value option \<Rightarrow> 'a value IteratorResult" where
  "emit r = (case r of None \<Rightarrow> Done | Some v \<Rightarrow> Yield v)"

text \<open>
  \<open>yields src rel invW sem\<close>: every cursor of \<open>src\<close> produces \<open>sem\<close>. The relation \<open>rel n c\<close>
  holds of a cursor \<open>c\<close> that has yielded \<open>n\<close> times; \<open>invW\<close> is an invariant of the
  world that each call of \<open>next\<close> relies on and keeps.
\<close>

definition yields ::
  "('a, 'c, 'w) Source \<Rightarrow> (nat \<Rightarrow> 'c \<Rightarrow> bool) \<Rightarrow> ('w \<Rightarrow> bool)
     \<Rightarrow> (nat \<Rightarrow> 'a value option) \<Rightarrow> bool" where
  "yields src rel invW sem \<longleftrightarrow>
     rel 0 (fresh src) \<and>
     (\<forall>n c w. live sem n \<and> rel n c \<and> invW w \<longrightarrow>
        (\<exists>c' w'. next src c w = Some (emit (sem n), c', w') \<and>
                 (sem n \<noteq> None \<longrightarrow> rel (Suc n) c') \<and> invW w'))"

text \<open>What \<open>get(idx)\<close> returns on a sequence whose source produces \<open>sem\<close>.\<close>

definition element :: "(nat \<Rightarrow> 'a value option) \<Rightarrow> int \<Rightarrow> 'a value Option" where
  "element sem idx =
     (if 0 \<le> idx \<and> live sem (nat idx + 1) then optional (the (sem (nat idx))) else Opt_NONE)"

text \<open>
  \<open>behaves sq P ev g\<close>: in every state that satisfies \<open>P\<close>, \<open>get(i)\<close> of \<open>sq\<close> returns \<open>g i\<close>
  and keeps \<open>P\<close>; \<open>ev\<close> counts the positions evaluated so far, which a \<open>get(i)\<close> never
  lowers and never raises beyond \<open>i + 1\<close>.
\<close>

definition behaves ::
  "('a, 's) Seq \<Rightarrow> ('s \<Rightarrow> bool) \<Rightarrow> ('s \<Rightarrow> nat) \<Rightarrow> (int \<Rightarrow> 'a value Option) \<Rightarrow> bool" where
  "behaves sq P ev g \<longleftrightarrow>
     (\<forall>i s. P s \<longrightarrow>
        (\<exists>s'. get sq i s = Some (g i, s') \<and> P s' \<and> ev s \<le> ev s' \<and>
              ev s' \<le> max (ev s) (nat (i + 1))))"

definition cache_inv ::
  "(nat \<Rightarrow> 'a value option) \<Rightarrow> ('w \<Rightarrow> bool) \<Rightarrow> 'a value list \<times> 'w \<Rightarrow> bool" where
  "cache_inv sem invW s \<longleftrightarrow> cache_ok sem (fst s) \<and> invW (snd s)"

text \<open>The positions of a created sequence evaluated so far are those in its cache.\<close>

definition evaluated :: "'a value list \<times> 'w \<Rightarrow> nat" where
  "evaluated s = length (fst s)"

text \<open>
  Instrumentation: a source wrapped so that every \<open>next()\<close> of any of its cursors records,
  in a log kept in the world, the position at which that cursor stood. The number of
  times position \<open>p\<close> was advanced is the number of occurrences of \<open>p\<close> in the log.
\<close>

definition counting :: "('a, 'c, 'w) Source \<Rightarrow> ('a, nat \<times> 'c, nat list \<times> 'w) Source" where
  "counting src =
     \<lparr> fresh = (0, fresh src),
       next = (\<lambda>(pos, c) (log, w).
         do { (r, c', w') \<leftarrow> next src c w;
              Some (r, (pos + 1, c'), (log @ [pos], w')) }) \<rparr>"



text \<open>The elements of an array, as what the source of \<open>fromArray\<close> produces.\<close>

definition array_sem :: "'a value list \<Rightarrow> nat \<Rightarrow> 'a value option" where
  "array_sem arr n = (if n < length arr then Some (arr ! n) else None)"

definition at_position :: "nat \<Rightarrow> nat \<Rightarrow> bool" where
  "at_position n c \<longleftrightarrow> c = n"

definition any_world :: "'w \<Rightarrow> bool" where
  "any_world w \<longleftrightarrow> True"

text \<open>The elements of an array that an iteration reaches: those before the first nil.\<close>

definition non_nil_prefix :: "'a value list \<Rightarrow> 'a value list" where
  "non_nil_prefix arr = takeWhile (\<lambda>v. \<not> isNil v) arr"






text \<open>
  The slices of a list as the specification words them: the empty list has no slice; a
  non-empty list without a boundary element is its own single slice; otherwise the
  elements before the first boundary form a slice (empty when the boundary leads), the
  boundary is dropped, and the rest is sliced in the same way.
\<close>

function slices_spec :: "('a \<Rightarrow> bool) \<Rightarrow> 'a list \<Rightarrow> 'a list list" where
  "slices_spec p xs =
     (if xs = [] then []
      else (case dropWhile (\<lambda>x. \<not> p x) xs of
              [] \<Rightarrow> [xs]
            | b # rest \<Rightarrow> takeWhile (\<lambda>x. \<not> p x) xs # slices_spec p rest))"
  by pat_completeness auto
termination
proof (relation "measure (\<lambda>(p, xs). length xs)")
  show "wf (measure (\<lambda>(p, xs). length xs))" by simp
next
  fix p :: "'a \<Rightarrow> bool" and xs :: "'a list" and b rest
  assume "dropWhile (\<lambda>x. \<not> p x) xs = b # rest"
  then have "length (b # rest) \<le> length xs" by (metis length_dropWhile_le)
  then show "((p, rest), (p, xs)) \<in> measure (\<lambda>(p, xs). length xs)" by simp
qed

declare slices_spec.simps [simp del]

text \<open>
  A cursor of the source of \<open>sliceBy\<close> and the slices it has yet to yield: none once the
  flag is set, those of the elements from position \<open>p\<close> on otherwise.
\<close>

definition slice_cursor ::
  "('a value \<Rightarrow> bool) \<Rightarrow> 'a value list \<Rightarrow> int \<times> bool \<Rightarrow> 'a value list list \<Rightarrow> bool" where
  "slice_cursor fn xs c rem \<longleftrightarrow>
     (if snd c then rem = []
      else (\<exists>p\<le>length xs. fst c = int p \<and> rem = slices_spec fn (List.drop p xs)))"

text \<open>The predicate \<open>x => x === 0\<close> of the scenarios.\<close>

definition is_zero :: "int value \<Rightarrow> bool" where
  "is_zero x \<longleftrightarrow> x = Value 0"


text \<open>
  Partial knowledge of a source, for sequences that need not end: \<open>yields_prefix src rel
  invW out\<close> says that the first \<open>length out\<close> calls of \<open>next\<close> on any cursor of \<open>src\<close> yield
  the elements of \<open>out\<close>; nothing is said of later calls. \<open>cache_known out cache\<close>: the
  cache holds the elements of \<open>out\<close> at the positions that both have.
\<close>

definition yields_prefix ::
  "('a, 'c, 'w) Source \<Rightarrow> (nat \<Rightarrow> 'c \<Rightarrow> bool) \<Rightarrow> ('w \<Rightarrow> bool) \<Rightarrow> 'a value list \<Rightarrow> bool" where
  "yields_prefix src rel invW out \<longleftrightarrow>
     rel 0 (fresh src) \<and>
     (\<forall>n c w. n < length out \<and> rel n c \<and> invW w \<longrightarrow>
        (\<exists>c' w'. next src c w = Some (Yield (out ! n), c', w') \<and> rel (Suc n) c' \<and> invW w'))"

definition cache_known :: "'a value list \<Rightarrow> 'a value list \<Rightarrow> bool" where
  "cache_known out cache \<longleftrightarrow> (\<forall>j. j < length cache \<and> j < length out \<longrightarrow> cache ! j = out ! j)"





text \<open>
  What the source of \<open>range(start, Infinity)\<close> produces, and the function of the scenario
  \<open>flatMap(x => range(x, Infinity))\<close>, whose inner sequences never end. The iterator never
  passes a nil value to the function; for a nil argument the model returns the empty
  sequence.
\<close>

definition range_sem :: "int \<Rightarrow> nat \<Rightarrow> int value option" where
  "range_sem start n = Some (Value (start + int n))"


text \<open>
  For \<open>sliceBy\<close> over a sequence that need not end, of which the elements \<open>xs\<close> are known:
  \<open>closed_slices fn xs\<close> are the slices that a boundary in \<open>xs\<close> closes, one for each
  boundary, that is all slices of \<open>xs\<close> but a last one that no boundary follows.
  \<open>parent_needed fn xs i\<close> is the number of elements up to and including boundary number
  \<open>i\<close> (from 0), the one that closes slice \<open>i\<close>. \<open>slice_cursor_known\<close> relates a cursor to
  the closed slices it has yet to yield.
\<close>

definition closed_slices :: "('a \<Rightarrow> bool) \<Rightarrow> 'a list \<Rightarrow> 'a list list" where
  "closed_slices p xs = List.take (length (filter p xs)) (slices_spec p xs)"

fun parent_needed :: "('a \<Rightarrow> bool) \<Rightarrow> 'a list \<Rightarrow> nat \<Rightarrow> nat" where
  "parent_needed p [] i = 0"
| "parent_needed p (x # xs) i =
     (if p x then (if i = 0 then 1 else 1 + parent_needed p xs (i - 1))
      else 1 + parent_needed p xs i)"

definition slice_cursor_known ::
  "('a value \<Rightarrow> bool) \<Rightarrow> 'a value list \<Rightarrow> int \<times> bool \<Rightarrow> 'a value list list \<Rightarrow> bool" where
  "slice_cursor_known fn xs c rem \<longleftrightarrow>
     \<not> snd c \<and> (\<exists>p\<le>length xs. fst c = int p \<and> rem = closed_slices fn (List.drop p xs))"

text \<open>
  The predicate \<open>x => x % 3 === 0\<close>. On the integers it holds of the multiples of
  three; \<open>null % 3\<close> is 0 and \<open>undefined % 3\<close> is \<open>NaN\<close>.
\<close>

definition is_multiple_of_three :: "int value \<Rightarrow> bool" where
  "is_multiple_of_three x \<longleftrightarrow>
     (case x of Value n \<Rightarrow> n mod 3 = 0 | Null \<Rightarrow> True | Undefined \<Rightarrow> False)"

section \<open>Basic facts about the engine\<close>

lemma optional_simps [simp]:
  "optional Undefined = Opt_NONE"
  "optional Null = Opt_NONE"
  "optional (Value x) = Opt_SOME (Value x)"
  by (simp_all add: optional_def some_def)

lemma optional_isNil: "optional v = (if isNil v then Opt_NONE else Opt_SOME v)"
  by (cases v) simp_all

lemma get_create_hit:
  "idx < int (length cache) \<Longrightarrow>
   get (create src) idx (cache, w) = Some (optional (array_get cache idx), cache, w)"
  by (simp add: create_def)

lemma get_create_negative:
  "idx < 0 \<Longrightarrow> get (create src) idx (cache, w) = Some (Opt_NONE, cache, w)"
  by (simp add: create_def array_get_def)

lemma get_create_miss:
  "int (length cache) \<le> idx \<Longrightarrow>
   get (create src) idx (cache, w) =
     do { (it, w') \<leftarrow> fast_forward src 0 (length cache) (fresh src) w;
          fill src idx cache it w' }"
  by (simp add: create_def)

text \<open>A sequence whose source reports done at once, read from an empty cache.\<close>

lemma get_create_done_at_once:
  assumes "next src (fresh src) w = Some (Done, c, w')"
  shows "get (create src) i ([], w) = Some (Opt_NONE, [], if i < 0 then w else w')"
proof (cases "i < 0")
  case True
  then show ?thesis by (simp add: get_create_negative)
next
  case False
  then show ?thesis using assms
    by (simp add: get_create_miss fast_forward.simps fill.simps)
qed

lemma toArrayUnsafe_empty:
  "get sq 0 s = Some (Opt_NONE, s') \<Longrightarrow> toArrayUnsafe sq s = Some ([], s')"
  by (simp add: toArrayUnsafe_def spread.simps iterator_next_def fold_Option_def)

section \<open>A created sequence returns what its source produces\<close>

lemma live_mono: "live sem n \<Longrightarrow> m \<le> n \<Longrightarrow> live sem m"
  by (simp add: live_def)

lemma cache_ok_live: "cache_ok sem cache \<Longrightarrow> live sem (length cache)"
  by (simp add: cache_ok_def live_def)

lemma cache_ok_snoc:
  "cache_ok sem cache \<Longrightarrow> sem (length cache) = Some v \<Longrightarrow> cache_ok sem (cache @ [v])"
  by (auto simp: cache_ok_def nth_append less_Suc_eq)

lemma yields_step:
  "yields src rel invW sem \<Longrightarrow> live sem n \<Longrightarrow> rel n c \<Longrightarrow> invW w \<Longrightarrow>
   \<exists>c' w'. next src c w = Some (emit (sem n), c', w') \<and>
           (sem n \<noteq> None \<longrightarrow> rel (Suc n) c') \<and> invW w'"
  unfolding yields_def by blast

lemma fast_forward_ok:
  assumes src: "yields src rel invW sem" and lv: "live sem n"
  shows "rel i c \<Longrightarrow> invW w \<Longrightarrow> i \<le> n \<Longrightarrow>
         \<exists>c' w'. fast_forward src i n c w = Some (c', w') \<and> rel n c' \<and> invW w'"
proof (induction "n - i" arbitrary: i c w)
  case 0
  then show ?case by (simp add: fast_forward.simps)
next
  case (Suc k)
  then have lt: "i < n" by simp
  then have "live sem i" using lv live_mono by (metis less_imp_le)
  moreover have "sem i \<noteq> None" using lv lt by (simp add: live_def)
  ultimately obtain c' w' where st: "next src c w = Some (emit (sem i), c', w')"
    and r: "rel (Suc i) c'" and iw: "invW w'"
    using yields_step[OF src _ Suc.prems(1) Suc.prems(2)] by blast
  have "k = n - Suc i" using Suc.hyps(2) by simp
  from Suc.hyps(1)[OF this r iw] lt
  obtain c'' w'' where "fast_forward src (Suc i) n c' w' = Some (c'', w'')" "rel n c''" "invW w''"
    by auto
  then show ?case using lt st by (subst fast_forward.simps) simp
qed

lemma element_hit:
  "cache_ok sem cache \<Longrightarrow> idx < int (length cache) \<Longrightarrow>
   optional (array_get cache idx) = element sem idx"
  by (auto simp: element_def array_get_def cache_ok_def live_def)

lemma fill_ok:
  assumes src: "yields src rel invW sem"
  shows "cache_ok sem cache \<Longrightarrow> rel (length cache) c \<Longrightarrow> invW w \<Longrightarrow>
         \<exists>cache' w'. fill src idx cache c w = Some (element sem idx, cache', w') \<and>
            cache_ok sem cache' \<and> invW w' \<and> prefix cache cache' \<and>
            length cache' \<le> max (length cache) (nat (idx + 1))"
proof (induction "nat (idx + 1 - int (length cache))" arbitrary: cache c w)
  case 0
  then have "idx < int (length cache)" by simp
  then show ?case using 0 by (subst fill.simps) (simp add: element_hit)
next
  case (Suc k)
  then have le: "int (length cache) \<le> idx" by simp
  have "live sem (length cache)" using Suc.prems(1) by (rule cache_ok_live)
  then obtain c' w' where st: "next src c w = Some (emit (sem (length cache)), c', w')"
    and r: "sem (length cache) \<noteq> None \<longrightarrow> rel (Suc (length cache)) c'" and iw: "invW w'"
    using yields_step[OF src _ Suc.prems(2) Suc.prems(3)] by blast
  show ?case
  proof (cases "sem (length cache)")
    case None
    moreover have "length cache < nat idx + 1" using le by linarith
    ultimately have "\<not> live sem (nat idx + 1)" unfolding live_def by blast
    then have "element sem idx = Opt_NONE" by (simp add: element_def)
    then show ?thesis using le st None Suc.prems iw
      by (subst fill.simps) (simp add: emit_def)
  next
    case (Some v)
    have ok: "cache_ok sem (cache @ [v])" using Suc.prems(1) Some by (rule cache_ok_snoc)
    have k: "k = nat (idx + 1 - int (length (cache @ [v])))" using Suc.hyps(2) by simp
    have r': "rel (length (cache @ [v])) c'" using r Some by simp
    from Suc.hyps(1)[OF k ok r' iw]
    obtain cache' w'' where f: "fill src idx (cache @ [v]) c' w' = Some (element sem idx, cache', w'')"
      and rest: "cache_ok sem cache'" "invW w''" "prefix (cache @ [v]) cache'"
        "length cache' \<le> max (length (cache @ [v])) (nat (idx + 1))"
      by blast
    have "prefix cache cache'" using rest(3) by (metis append_prefixD)
    moreover have "length cache' \<le> max (length cache) (nat (idx + 1))" using rest(4) le by simp
    ultimately show ?thesis using le st Some f rest
      by (subst fill.simps) (simp add: emit_def)
  qed
qed

lemma create_behaves_aux:
  assumes src: "yields src rel invW sem" and ok: "cache_ok sem cache" and iw: "invW w"
  shows "\<exists>cache' w'. get (create src) idx (cache, w) = Some (element sem idx, cache', w') \<and>
            cache_ok sem cache' \<and> invW w' \<and> prefix cache cache' \<and>
            length cache' \<le> max (length cache) (nat (idx + 1))"
proof (cases "idx < int (length cache)")
  case True
  then show ?thesis using ok iw by (simp add: get_create_hit element_hit)
next
  case False
  have r0: "rel 0 (fresh src)" using src by (simp add: yields_def)
  obtain c' w' where ff: "fast_forward src 0 (length cache) (fresh src) w = Some (c', w')"
    and r: "rel (length cache) c'" and iw': "invW w'"
    using fast_forward_ok[OF src cache_ok_live[OF ok] r0 iw] by blast
  from fill_ok[OF src ok r iw', of idx] show ?thesis using False ff
    by (simp add: get_create_miss)
qed

lemma create_behaves:
  assumes src: "yields src rel invW sem"
  shows "behaves (create src) (cache_inv sem invW) evaluated (element sem)"
  unfolding behaves_def
proof (intro allI impI)
  fix i and s :: "'a value list \<times> 'c"
  assume "cache_inv sem invW s"
  then have ok: "cache_ok sem (fst s)" and iw: "invW (snd s)" by (simp_all add: cache_inv_def)
  from create_behaves_aux[OF src ok iw, of i]
  show "\<exists>s'. get (create src) i s = Some (element sem i, s') \<and> cache_inv sem invW s' \<and>
          evaluated s \<le> evaluated s' \<and> evaluated s' \<le> max (evaluated s) (nat (i + 1))"
    by (cases s) (auto simp: cache_inv_def evaluated_def dest: prefix_length_le)
qed

section \<open>Negative indices, \<open>drop\<close>, \<open>take\<close> and \<open>slice\<close>\<close>

lemma drop_done_at_once:
  assumes "get sq n s = Some (Opt_NONE, s')"
  shows "get (drop_seq sq n) i ([], s) = Some (Opt_NONE, [], if i < 0 then s else s')"
proof -
  have nx: "next (drop_source sq n) (fresh (drop_source sq n)) s = Some (Done, n + 1, s')"
    using assms by (simp add: drop_source_def fold_Option_def)
  show ?thesis unfolding drop_seq_def using get_create_done_at_once[OF nx, of i] by simp
qed

lemma drop_negative_get:
  assumes "n < 0"
  shows "get (drop_seq (create src) n) i ([], cache, w) = Some (Opt_NONE, [], cache, w)"
  using drop_done_at_once[of "create src" n "(cache, w)" "(cache, w)" i] assms
  by (simp add: get_create_negative)






text \<open>
  C10. For every sequence and every negative \<open>n\<close>, \<open>get(n)\<close> returns the absent variant and
  leaves the sequence as it was (there is no error outcome), and \<open>drop(n)\<close> is the empty
  sequence: each of its positions is absent and materializing it gives the empty array.
\<close>

theorem get_negative_absent_drop_negative_empty:
  assumes "n < 0"
  shows "get (create src) n (cache, w) = Some (Opt_NONE, cache, w) \<and>
         (\<forall>i. get (drop_seq (create src) n) i (new_cache (cache, w))
                = Some (Opt_NONE, new_cache (cache, w))) \<and>
         toArrayUnsafe (drop_seq (create src) n) (new_cache (cache, w))
           = Some ([], new_cache (cache, w))"
  using assms
  by (simp add: get_create_negative new_cache_def drop_negative_get toArrayUnsafe_empty)

lemmas engine_eval =
  toArrayUnsafe_def spread.simps iterator_next_def create_def fast_forward.simps fill.simps
  fold_Option_def array_get_def new_cache_def

lemmas fromArray_eval = fromArray_def fromArray_source_def

theorem get_negative_absent_drop_negative_empty_witness:
  "(- 1 :: int) < 0 \<and>
   get (fromArray [Value (1::int), Value 2, Value 3]) (- 1) ([], ()) = Some (Opt_NONE, [], ()) \<and>
   toArrayUnsafe (drop_seq (fromArray [Value (1::int), Value 2, Value 3]) (- 1)) (new_cache ([], ()))
     = Some ([], new_cache ([], ())) \<and>
   toArrayUnsafe (fromArray [Value (1::int), Value 2, Value 3]) ([], ())
     = Some ([Value 1, Value 2, Value 3], [Value 1, Value 2, Value 3], ())"
proof -
  have neg: "(- 1 :: int) < 0" by simp
  have orig: "toArrayUnsafe (fromArray [Value (1::int), Value 2, Value 3]) ([], ())
     = Some ([Value 1, Value 2, Value 3], [Value 1, Value 2, Value 3], ())"
    by (simp add: engine_eval fromArray_eval)
  show ?thesis
    using get_negative_absent_drop_negative_empty
      [OF neg, of "fromArray_source [Value (1::int), Value 2, Value 3]" "[]" "()"] orig
    by (simp add: fromArray_def)
qed



text \<open>
  C6. \<open>chunk(size)\<close> and \<open>window(size)\<close> with \<open>size \<le> 0\<close> fail at the constructing call with
  an error (not a Result or Option value); with \<open>size > 0\<close> the call returns the new
  sequence. The call takes no state of any sequence, so nothing is evaluated by it.
\<close>

theorem chunk_window_size_guard:
  "(sz \<le> 0 \<longrightarrow>
      chunk sq sz = Inl (Error ''Chunk size must be greater than 0'') \<and>
      window sq sz = Inl (Error ''Window size must be greater than 0''))
   \<and> (0 < sz \<longrightarrow>
      chunk sq sz = Inr (create (chunk_source sq sz)) \<and>
      window sq sz = Inr (create (window_source sq sz)))"
  by (simp add: chunk_def window_def)

theorem chunk_window_size_guard_witness:
  "chunk (fromArray [Value (1::int), Value 2, Value 3]) 0
     = Inl (Error ''Chunk size must be greater than 0'') \<and>
   window (fromArray [Value (1::int), Value 2, Value 3]) (- 3)
     = Inl (Error ''Window size must be greater than 0'') \<and>
   chunk (fromArray [Value (1::int), Value 2, Value 3]) 2
     = Inr (create (chunk_source (fromArray [Value 1, Value 2, Value 3]) 2)) \<and>
   window (fromArray [Value (1::int), Value 2, Value 3]) 2
     = Inr (create (window_source (fromArray [Value 1, Value 2, Value 3]) 2))"
  using chunk_window_size_guard [of 0 "fromArray [Value (1::int), Value 2, Value 3]"]
    chunk_window_size_guard [of "- 3" "fromArray [Value (1::int), Value 2, Value 3]"]
    chunk_window_size_guard [of 2 "fromArray [Value (1::int), Value 2, Value 3]"]
  by simp

section \<open>Memoization\<close>


lemma fill_result:
  "fill src idx cache c w = Some (r, cache', w') \<Longrightarrow>
   prefix cache cache' \<and>
   (\<forall>v. r = Opt_SOME v \<longrightarrow> 0 \<le> idx \<and> idx < int (length cache') \<and> cache' ! nat idx = v \<and> \<not> isNil v)"
proof (induction "nat (idx + 1 - int (length cache))" arbitrary: cache c w)
  case 0
  then have "idx < int (length cache)" by simp
  then show ?case using 0(2)
    by (subst (asm) fill.simps) (auto simp: array_get_def optional_isNil split: if_splits)
next
  case (Suc k)
  then have le: "int (length cache) \<le> idx" by simp
  from Suc.prems le obtain n c1 w1 where nx: "next src c w = Some (n, c1, w1)"
    and rest: "(case n of Done \<Rightarrow> Some (Opt_NONE, cache, w1)
               | Yield v \<Rightarrow> fill src idx (cache @ [v]) c1 w1) = Some (r, cache', w')"
    by (subst (asm) fill.simps) (auto split: bind_splits)
  show ?case
  proof (cases n)
    case Done
    then show ?thesis using rest by auto
  next
    case (Yield v)
    then have f: "fill src idx (cache @ [v]) c1 w1 = Some (r, cache', w')" using rest by simp
    have k: "k = nat (idx + 1 - int (length (cache @ [v])))" using Suc.hyps(2) by simp
    from Suc.hyps(1)[OF k f] show ?thesis by (auto dest: append_prefixD)
  qed
qed

lemma get_create_result:
  assumes "get (create src) idx (cache, w) = Some (r, cache', w')"
  shows "prefix cache cache' \<and>
   (\<forall>v. r = Opt_SOME v \<longrightarrow> 0 \<le> idx \<and> idx < int (length cache') \<and> cache' ! nat idx = v \<and> \<not> isNil v)"
proof (cases "idx < int (length cache)")
  case True
  then show ?thesis using assms
    by (auto simp: get_create_hit array_get_def optional_isNil split: if_splits)
next
  case False
  then obtain it w1 where "fill src idx cache it w1 = Some (r, cache', w')"
    using assms by (auto simp: get_create_miss split: bind_splits)
  then show ?thesis by (rule fill_result)
qed

lemma get_create_stable:
  assumes g: "get (create src) idx (cache, w) = Some (Opt_SOME v, cache', w')"
    and p: "prefix cache' cache''"
  shows "get (create src) idx (cache'', w'') = Some (Opt_SOME v, cache'', w'')"
proof -
  from get_create_result[OF g]
  have i: "0 \<le> idx" "idx < int (length cache')" "cache' ! nat idx = v" "\<not> isNil v" by auto
  have l: "idx < int (length cache'')" using i(2) p by (auto dest: prefix_length_le)
  have "cache'' ! nat idx = v" using p i by (auto simp: prefix_def nth_append)
  then show ?thesis using l i by (simp add: get_create_hit array_get_def optional_isNil)
qed

lemma fast_forward_counting:
  "fast_forward (counting src) i n (i, c) (log, w) = Some ((p, c'), (log', w')) \<Longrightarrow> i \<le> n \<Longrightarrow>
   p = n \<and> log' = log @ [i..<n]"
proof (induction "n - i" arbitrary: i c log w)
  case 0
  then show ?case by (simp add: fast_forward.simps)
next
  case (Suc k)
  then have lt: "i < n" by simp
  from Suc.prems(1) lt obtain r c1 w1 where
    nx: "next src c w = Some (r, c1, w1)" and
    ff: "fast_forward (counting src) (Suc i) n (Suc i, c1) (log @ [i], w1) = Some ((p, c'), (log', w'))"
    by (subst (asm) fast_forward.simps) (auto simp: counting_def split: bind_splits)
  have "k = n - Suc i" using Suc.hyps(2) by simp
  from Suc.hyps(1)[OF this ff] lt show ?case by (simp add: upt_conv_Cons)
qed

lemma fill_counting:
  "fill (counting src) idx cache (p, c) (log, w) = Some (r, cache', (log', w')) \<Longrightarrow>
   \<exists>k\<ge>p. log' = log @ [p..<k] \<and> (int (length cache) \<le> idx \<longrightarrow> p < k)"
proof (induction "nat (idx + 1 - int (length cache))" arbitrary: cache p c log w)
  case 0
  then have "idx < int (length cache)" by simp
  then show ?case using 0(2) by (subst (asm) fill.simps) (auto intro: exI[of _ p])
next
  case (Suc j)
  then have le: "int (length cache) \<le> idx" by simp
  from Suc.prems le obtain n c1 w1 where nx: "next src c w = Some (n, c1, w1)"
    and rest: "(case n of Done \<Rightarrow> Some (Opt_NONE, cache, (log @ [p], w1))
               | Yield v \<Rightarrow> fill (counting src) idx (cache @ [v]) (Suc p, c1) (log @ [p], w1))
               = Some (r, cache', (log', w'))"
    by (subst (asm) fill.simps) (auto simp: counting_def split: bind_splits)
  show ?case
  proof (cases n)
    case Done
    then have "log' = log @ [p..<Suc p]" using rest by auto
    then show ?thesis by (intro exI[of _ "Suc p"]) simp
  next
    case (Yield v)
    then have f: "fill (counting src) idx (cache @ [v]) (Suc p, c1) (log @ [p], w1)
                  = Some (r, cache', (log', w'))" using rest by simp
    have k: "j = nat (idx + 1 - int (length (cache @ [v])))" using Suc.hyps(2) by simp
    from Suc.hyps(1)[OF k f] obtain k where "k \<ge> Suc p" "log' = (log @ [p]) @ [Suc p..<k]" by blast
    then show ?thesis by (intro exI[of _ k]) (simp add: upt_conv_Cons)
  qed
qed

lemma get_counting_miss:
  assumes g: "get (create (counting src)) idx (cache, (log, w)) = Some (r, cache', (log', w'))"
    and miss: "int (length cache) \<le> idx"
  shows "\<exists>k>length cache. log' = log @ [0..<k]"
proof -
  from g miss obtain p c l1 w1 where
    ff: "fast_forward (counting src) 0 (length cache) (0, fresh src) (log, w) = Some ((p, c), (l1, w1))"
    and fl: "fill (counting src) idx cache (p, c) (l1, w1) = Some (r, cache', (log', w'))"
    by (auto simp: get_create_miss counting_def split: bind_splits)
  from fast_forward_counting[OF ff] have p: "p = length cache" and l1: "l1 = log @ [0..<length cache]"
    by simp_all
  from fill_counting[OF fl] miss obtain k where "k \<ge> p" "log' = l1 @ [p..<k]" "p < k" by blast
  then have "log' = log @ [0..<k]" using p l1
    by (metis append.assoc le0 upt_add_eq_append le_Suc_ex)
  then show ?thesis using \<open>p < k\<close> p by blast
qed

lemma fromArray_yields: "yields (fromArray_source arr) at_position any_world (array_sem arr)"
  by (auto simp: yields_def fromArray_source_def at_position_def any_world_def array_sem_def emit_def)

lemma cache_ok_Nil [simp]: "cache_ok sem []"
  by (simp add: cache_ok_def)

text \<open>
  C1 (counterexample). With a source that logs every position it is advanced at, \<open>get(0)\<close>
  followed by \<open>get(1)\<close> advances position 0 twice: the second call is a cache miss, takes
  a fresh cursor and replays position 0 before it reaches position 1.
\<close>

theorem source_replayed_counterexample:
  "get (create (counting (fromArray_source [Value (1::int), Value 2]))) 0 ([], [], ())
     = Some (Opt_SOME (Value 1), [Value 1], [0], ()) \<and>
   get (create (counting (fromArray_source [Value (1::int), Value 2]))) 1 ([Value 1], [0], ())
     = Some (Opt_SOME (Value 2), [Value 1, Value 2], [0, 0, 1], ()) \<and>
   count_list [0, 0, 1 :: nat] 0 = 2"
  by (simp add: engine_eval fromArray_eval counting_def)

text \<open>
  C1 (amended). For every sequence built by \<open>create\<close>: a \<open>get\<close> of a cached position
  returns the cached value and touches neither the source nor the state; the cache only
  grows at its end, so once \<open>get(i)\<close> has returned a present value every later \<open>get(i)\<close>
  returns that value; with a source that produces the same elements on every cursor,
  \<open>get(i)\<close> returns the same value in every state. On a cache miss the source is replayed
  from position 0: a logging source records the positions \<open>0, \<dots>, k - 1\<close> once each in
  that call, with \<open>k\<close> beyond the number of positions already cached.
\<close>

theorem get_memoized_source_replayed:
  "(idx < int (length cache) \<longrightarrow>
      get (create src) idx (cache, w) = Some (optional (array_get cache idx), cache, w))
   \<and> (get (create src) idx (cache, w) = Some (r, cache', w') \<longrightarrow>
        prefix cache cache' \<and>
        (\<forall>v cache'' w''. r = Opt_SOME v \<and> prefix cache' cache'' \<longrightarrow>
           get (create src) idx (cache'', w'') = Some (Opt_SOME v, cache'', w'')))
   \<and> (yields src rel invW sem \<and> cache_ok sem cache \<and> invW w \<longrightarrow>
        (\<exists>cache1 w1. get (create src) idx (cache, w) = Some (element sem idx, cache1, w1) \<and>
           cache_ok sem cache1 \<and> invW w1))
   \<and> (int (length cache) \<le> idx \<and>
        get (create (counting src)) idx (cache, (log, w)) = Some (r2, cache2, (log2, w2)) \<longrightarrow>
        (\<exists>k>length cache. log2 = log @ [0..<k]))"
proof (intro conjI impI)
  assume "idx < int (length cache)"
  then show "get (create src) idx (cache, w) = Some (optional (array_get cache idx), cache, w)"
    by (rule get_create_hit)
next
  assume g: "get (create src) idx (cache, w) = Some (r, cache', w')"
  show "prefix cache cache'" using get_create_result[OF g] by simp
  show "\<forall>v cache'' w''. r = Opt_SOME v \<and> prefix cache' cache'' \<longrightarrow>
           get (create src) idx (cache'', w'') = Some (Opt_SOME v, cache'', w'')"
  proof (intro allI impI)
    fix v cache'' w''
    assume h: "r = Opt_SOME v \<and> prefix cache' cache''"
    then have "get (create src) idx (cache, w) = Some (Opt_SOME v, cache', w')" using g by simp
    then show "get (create src) idx (cache'', w'') = Some (Opt_SOME v, cache'', w'')"
      using h[THEN conjunct2] by (rule get_create_stable)
  qed
next
  assume h: "yields src rel invW sem \<and> cache_ok sem cache \<and> invW w"
  from create_behaves_aux[of src rel invW sem cache w idx] h
  obtain cache1 w1 where "get (create src) idx (cache, w) = Some (element sem idx, cache1, w1)"
    "cache_ok sem cache1" "invW w1" by auto
  then show "\<exists>cache1 w1. get (create src) idx (cache, w) = Some (element sem idx, cache1, w1) \<and>
           cache_ok sem cache1 \<and> invW w1" by simp
next
  assume h: "int (length cache) \<le> idx \<and>
        get (create (counting src)) idx (cache, (log, w)) = Some (r2, cache2, (log2, w2))"
  show "\<exists>k>length cache. log2 = log @ [0..<k]"
    using get_counting_miss[of src idx cache log w r2 cache2 log2 w2] h by simp
qed

theorem get_memoized_source_replayed_witness:
  "get (create (fromArray_source [Value (1::int), Value 2])) 0 ([Value 1], ())
      = Some (Opt_SOME (Value 1), [Value 1], ())
   \<and> get (create (fromArray_source [Value (1::int), Value 2])) 0 ([Value 1, Value 2], ())
      = Some (Opt_SOME (Value 1), [Value 1, Value 2], ())
   \<and> (\<exists>k>1. [0, 0, 1] = [0] @ [0..<k])"
proof -
  let ?src = "fromArray_source [Value (1::int), Value 2]"
  have g: "get (create ?src) 0 ([], ()) = Some (Opt_SOME (Value 1), [Value 1], ())"
    by (simp add: engine_eval fromArray_eval)
  have c: "get (create (counting ?src)) 1 ([Value 1], [0], ())
             = Some (Opt_SOME (Value 2), [Value 1, Value 2], [0, 0, 1], ())"
    by (simp add: engine_eval fromArray_eval counting_def)
  note th = get_memoized_source_replayed
  have a: "get (create ?src) 0 ([Value 1], ()) = Some (Opt_SOME (Value 1), [Value 1], ())"
    using th[where idx = 0 and cache = "[Value (1::int)]" and src = ?src and w = "()", THEN conjunct1]
    by (simp add: array_get_def)
  have b: "get (create ?src) 0 ([Value 1, Value 2], ()) = Some (Opt_SOME (Value 1), [Value 1, Value 2], ())"
    using th[where idx = 0 and cache = "[]" and src = ?src and w = "()" and r = "Opt_SOME (Value 1)"
        and cache' = "[Value 1]" and w' = "()", THEN conjunct2, THEN conjunct1] g
    by simp
  have d: "\<exists>k>1. [0, 0, 1] = [0] @ [0..<k]"
    using th[where idx = 1 and cache = "[Value (1::int)]" and src = ?src and w = "()" and log = "[0]"
        and ?r2.0 = "Opt_SOME (Value 2)" and ?cache2.0 = "[Value 1, Value 2]"
        and ?log2.0 = "[0, 0, 1]" and ?w2.0 = "()", THEN conjunct2, THEN conjunct2, THEN conjunct2] c
    by simp
  show ?thesis using a b d by simp
qed

section \<open>Walking a sequence\<close>

lemma behavesD:
  "behaves sq P ev g \<Longrightarrow> P s \<Longrightarrow>
   \<exists>s'. get sq i s = Some (g i, s') \<and> P s' \<and> ev s \<le> ev s' \<and> ev s' \<le> max (ev s) (nat (i + 1))"
  unfolding behaves_def by blast

lemma iterator_next_behaves:
  assumes "behaves sq P ev g" and "P s"
  shows "\<exists>s'. iterator_next sq i s = Some (fold_Option Yield Done (g i), i + 1, s') \<and> P s' \<and>
           ev s \<le> ev s' \<and> ev s' \<le> max (ev s) (nat (i + 1))"
  using behavesD[OF assms, of i] by (auto simp: iterator_next_def)

lemma spread_behaves:
  assumes b: "behaves sq P ev g"
  shows "P s \<Longrightarrow> \<forall>j<length xs. g (k + int j) = Opt_SOME (xs ! j) \<Longrightarrow>
         g (k + int (length xs)) = Opt_NONE \<Longrightarrow>
         \<exists>s'. spread sq k acc s = Some (acc @ xs, s') \<and> P s' \<and> ev s \<le> ev s' \<and>
              ev s' \<le> max (ev s) (nat (k + int (length xs) + 1))"
proof (induction xs arbitrary: k acc s)
  case Nil
  from iterator_next_behaves[OF b Nil(1), of k] Nil(3)
  show ?case by (subst spread.simps) (auto simp: fold_Option_def)
next
  case (Cons x xs)
  have gk: "g k = Opt_SOME x" using Cons.prems(2) by force
  from iterator_next_behaves[OF b Cons.prems(1), of k] gk
  obtain s1 where nx: "iterator_next sq k s = Some (Yield x, k + 1, s1)" and p1: "P s1"
    and e1: "ev s \<le> ev s1" "ev s1 \<le> max (ev s) (nat (k + 1))"
    by (auto simp: fold_Option_def)
  have a: "\<forall>j<length xs. g (k + 1 + int j) = Opt_SOME (xs ! j)"
  proof (intro allI impI)
    fix j assume "j < length xs"
    then have "g (k + int (Suc j)) = Opt_SOME ((x # xs) ! Suc j)" using Cons.prems(2) by force
    then show "g (k + 1 + int j) = Opt_SOME (xs ! j)" by (simp add: add.assoc)
  qed
  have z: "g (k + 1 + int (length xs)) = Opt_NONE" using Cons.prems(3) by (simp add: add.assoc)
  from Cons.IH[OF p1 a z, of "acc @ [x]"]
  obtain s' where sp: "spread sq (k + 1) (acc @ [x]) s1 = Some ((acc @ [x]) @ xs, s')" and "P s'"
    and e2: "ev s1 \<le> ev s'" "ev s' \<le> max (ev s1) (nat (k + 1 + int (length xs) + 1))"
    by blast
  have "ev s' \<le> max (ev s) (nat (k + int (length (x # xs)) + 1))" using e1 e2 by auto
  then show ?case using nx sp \<open>P s'\<close> e1 e2
    by (subst spread.simps) auto
qed

lemma live_array_sem: "live (array_sem arr) n \<longleftrightarrow> n \<le> length arr"
proof
  assume l: "live (array_sem arr) n"
  show "n \<le> length arr"
  proof (rule ccontr)
    assume "\<not> n \<le> length arr"
    then have "length arr < n" by simp
    then have "array_sem arr (length arr) \<noteq> None" using l unfolding live_def by blast
    then show False by (simp add: array_sem_def)
  qed
next
  assume "n \<le> length arr"
  then show "live (array_sem arr) n" by (simp add: live_def array_sem_def)
qed

lemma element_array_sem:
  "element (array_sem arr) (int j) = (if j < length arr then optional (arr ! j) else Opt_NONE)"
  by (simp add: element_def live_array_sem array_sem_def Suc_le_eq)

lemma fromArray_behaves:
  "behaves (fromArray arr) (cache_inv (array_sem arr) any_world) evaluated (element (array_sem arr))"
  unfolding fromArray_def by (rule create_behaves[OF fromArray_yields])

lemma new_cache_inv: "cache_inv (array_sem arr) any_world (new_cache ())"
  by (simp add: cache_inv_def new_cache_def any_world_def)

lemma fromArray_visible:
  "(\<forall>j<length (non_nil_prefix arr).
      element (array_sem arr) (0 + int j) = Opt_SOME (non_nil_prefix arr ! j)) \<and>
   element (array_sem arr) (0 + int (length (non_nil_prefix arr))) = Opt_NONE"
proof (intro conjI allI impI)
  fix j assume j: "j < length (non_nil_prefix arr)"
  then have "j < length arr" unfolding non_nil_prefix_def
    by (meson length_takeWhile_le less_le_trans)
  moreover have "non_nil_prefix arr ! j = arr ! j" using j unfolding non_nil_prefix_def
    by (rule takeWhile_nth)
  moreover have "\<not> isNil (arr ! j)" using j unfolding non_nil_prefix_def
    by (metis nth_mem set_takeWhileD takeWhile_nth)
  ultimately show "element (array_sem arr) (0 + int j) = Opt_SOME (non_nil_prefix arr ! j)"
    by (simp add: element_array_sem optional_isNil)
next
  show "element (array_sem arr) (0 + int (length (non_nil_prefix arr))) = Opt_NONE"
  proof (cases "length (non_nil_prefix arr) < length arr")
    case True
    then have "isNil (arr ! length (non_nil_prefix arr))" unfolding non_nil_prefix_def
      using nth_length_takeWhile by blast
    then show ?thesis using True by (simp add: element_array_sem optional_isNil)
  next
    case False
    then show ?thesis by (simp add: element_array_sem)
  qed
qed

lemma toArrayUnsafe_fromArray:
  "\<exists>s'. toArrayUnsafe (fromArray arr) (new_cache ()) = Some (non_nil_prefix arr, s')"
proof -
  from fromArray_visible[of arr]
  have a: "\<forall>j<length (non_nil_prefix arr).
      element (array_sem arr) (0 + int j) = Opt_SOME (non_nil_prefix arr ! j)"
    and z: "element (array_sem arr) (0 + int (length (non_nil_prefix arr))) = Opt_NONE"
    by blast+
  from spread_behaves[OF fromArray_behaves new_cache_inv a z, of "[]"]
  show ?thesis by (auto simp: toArrayUnsafe_def)
qed

section \<open>Round trip through \<open>fromArray\<close>\<close>

text \<open>
  C8 (counterexample). \<open>fromArray([1, undefined, 3]).toArrayUnsafe()\<close> is \<open>[1]\<close>: the
  iterator reads \<open>get(1)\<close>, which is absent, and stops.
\<close>

theorem roundtrip_nil_counterexample:
  "toArrayUnsafe (fromArray [Value (1::int), Undefined, Value 3]) (new_cache ())
     = Some ([Value 1], [Value 1, Undefined], ()) \<and>
   [Value (1::int)] \<noteq> [Value 1, Undefined, Value 3]"
  by (simp add: engine_eval fromArray_eval)

text \<open>
  C8 (amended). For every finite array, \<open>fromArray(arr).toArrayUnsafe()\<close> returns the
  elements of \<open>arr\<close> before its first null or undefined element, in order; so it equals
  \<open>arr\<close> for every array, the empty one included, that holds no null and no undefined.
\<close>

theorem fromArray_toArrayUnsafe_roundtrip:
  "(\<exists>s'. toArrayUnsafe (fromArray arr) (new_cache ())
           = Some (takeWhile (\<lambda>v. \<not> isNil v) arr, s')) \<and>
   ((\<forall>v \<in> set arr. \<not> isNil v) \<longrightarrow>
      (\<exists>s'. toArrayUnsafe (fromArray arr) (new_cache ()) = Some (arr, s')))"
proof (intro conjI impI)
  show "\<exists>s'. toArrayUnsafe (fromArray arr) (new_cache ())
           = Some (takeWhile (\<lambda>v. \<not> isNil v) arr, s')"
    using toArrayUnsafe_fromArray[of arr] by (simp add: non_nil_prefix_def)
next
  assume "\<forall>v \<in> set arr. \<not> isNil v"
  then have "non_nil_prefix arr = arr" by (simp add: non_nil_prefix_def)
  then show "\<exists>s'. toArrayUnsafe (fromArray arr) (new_cache ()) = Some (arr, s')"
    using toArrayUnsafe_fromArray[of arr] by simp
qed

theorem fromArray_toArrayUnsafe_roundtrip_witness:
  "(\<exists>s'. toArrayUnsafe (fromArray [Value (1::int), Value 2, Value 3]) (new_cache ())
          = Some ([Value 1, Value 2, Value 3], s')) \<and>
   (\<exists>s'. toArrayUnsafe (fromArray ([] :: int value list)) (new_cache ()) = Some ([], s'))"
  using fromArray_toArrayUnsafe_roundtrip[of "[Value (1::int), Value 2, Value 3]"]
    fromArray_toArrayUnsafe_roundtrip[of "[] :: int value list"]
  by simp

section \<open>Bounded operations\<close>

lemma length_loop_success:
  assumes b: "behaves sq P ev g"
  shows "P s \<Longrightarrow> \<forall>j<n. g (it + int j) \<noteq> Opt_NONE \<Longrightarrow> g (it + int n) = Opt_NONE \<Longrightarrow>
         n = 0 \<or> c + int n \<le> mx \<Longrightarrow>
         \<exists>s'. length_loop sq mx it c s = Some (Inr (c + int n), s') \<and> P s'"
proof (induction n arbitrary: it c s)
  case 0
  from iterator_next_behaves[OF b 0(1), of it] 0(3)
  show ?case by (subst length_loop.simps) (auto simp: fold_Option_def)
next
  case (Suc n)
  have "g it \<noteq> Opt_NONE" using Suc.prems(2) by force
  then obtain x where gk: "g it = Opt_SOME x" by (cases "g it") auto
  from iterator_next_behaves[OF b Suc.prems(1), of it] gk
  obtain s1 where nx: "iterator_next sq it s = Some (Yield x, it + 1, s1)" and p1: "P s1"
    by (auto simp: fold_Option_def)
  have a: "\<forall>j<n. g (it + 1 + int j) \<noteq> Opt_NONE"
  proof (intro allI impI)
    fix j assume "j < n"
    then have "g (it + int (Suc j)) \<noteq> Opt_NONE" using Suc.prems(2) by blast
    then show "g (it + 1 + int j) \<noteq> Opt_NONE" by (simp add: add.assoc)
  qed
  have z: "g (it + 1 + int n) = Opt_NONE" using Suc.prems(3) by (simp add: add.assoc)
  have le: "c + 1 \<le> mx" using Suc.prems(4) by simp
  then have c: "n = 0 \<or> (c + 1) + int n \<le> mx" using Suc.prems(4) by simp
  from Suc.IH[OF p1 a z c]
  obtain s' where "length_loop sq mx (it + 1) (c + 1) s1 = Some (Inr (c + 1 + int n), s')" "P s'"
    by blast
  then show ?case using nx le by (subst length_loop.simps) (simp add: add.assoc)
qed

lemma length_loop_failure:
  assumes b: "behaves sq P ev g"
  shows "P s \<Longrightarrow> \<forall>j\<le>nat (mx - c). g (it + int j) \<noteq> Opt_NONE \<Longrightarrow>
         \<exists>s'. length_loop sq mx it c s = Some (Inl (Error ''Too large''), s') \<and> P s'"
proof (induction "nat (mx - c)" arbitrary: it c s)
  case 0
  have "g it \<noteq> Opt_NONE" using 0(3) by force
  then obtain x where gk: "g it = Opt_SOME x" by (cases "g it") auto
  from iterator_next_behaves[OF b 0(2), of it] gk
  obtain s1 where nx: "iterator_next sq it s = Some (Yield x, it + 1, s1)" and p1: "P s1"
    by (auto simp: fold_Option_def)
  have "c + 1 > mx" using 0(1) by simp
  then show ?case using nx p1 by (subst length_loop.simps) simp
next
  case (Suc k)
  have "g it \<noteq> Opt_NONE" using Suc.prems(2) by force
  then obtain x where gk: "g it = Opt_SOME x" by (cases "g it") auto
  from iterator_next_behaves[OF b Suc.prems(1), of it] gk
  obtain s1 where nx: "iterator_next sq it s = Some (Yield x, it + 1, s1)" and p1: "P s1"
    by (auto simp: fold_Option_def)
  have le: "\<not> c + 1 > mx" using Suc.hyps(2) by simp
  have k: "k = nat (mx - (c + 1))" using Suc.hyps(2) by simp
  have a: "\<forall>j\<le>nat (mx - (c + 1)). g (it + 1 + int j) \<noteq> Opt_NONE"
  proof (intro allI impI)
    fix j assume "j \<le> nat (mx - (c + 1))"
    then have "Suc j \<le> nat (mx - c)" using Suc.hyps(2) by simp
    then have "g (it + int (Suc j)) \<noteq> Opt_NONE" using Suc.prems(2) by blast
    then show "g (it + 1 + int j) \<noteq> Opt_NONE" by (simp add: add.assoc)
  qed
  from Suc.hyps(1)[OF k p1 a]
  obtain s' where "length_loop sq mx (it + 1) (c + 1) s1 = Some (Inl (Error ''Too large''), s')" "P s'"
    by blast
  then show ?case using nx le by (subst length_loop.simps) simp
qed

lemma walk_success:
  assumes b: "behaves sq P ev g"
  shows "P s \<Longrightarrow> \<forall>j<length xs. g (it + int j) = Opt_SOME (xs ! j) \<Longrightarrow>
         g (it + int (length xs)) = Opt_NONE \<Longrightarrow>
         xs = [] \<or> c + int (length xs) \<le> mx \<Longrightarrow>
         \<exists>s'. walk sq mx msg it arr c s = Some (Inr (arr @ xs), s') \<and> P s'"
proof (induction xs arbitrary: it c s arr)
  case Nil
  from iterator_next_behaves[OF b Nil(1), of it] Nil(3)
  show ?case by (subst walk.simps) (auto simp: fold_Option_def)
next
  case (Cons x xs)
  have gk: "g it = Opt_SOME x" using Cons.prems(2) by force
  from iterator_next_behaves[OF b Cons.prems(1), of it] gk
  obtain s1 where nx: "iterator_next sq it s = Some (Yield x, it + 1, s1)" and p1: "P s1"
    by (auto simp: fold_Option_def)
  have a: "\<forall>j<length xs. g (it + 1 + int j) = Opt_SOME (xs ! j)"
  proof (intro allI impI)
    fix j assume "j < length xs"
    then have "g (it + int (Suc j)) = Opt_SOME ((x # xs) ! Suc j)" using Cons.prems(2) by force
    then show "g (it + 1 + int j) = Opt_SOME (xs ! j)" by (simp add: add.assoc)
  qed
  have z: "g (it + 1 + int (length xs)) = Opt_NONE" using Cons.prems(3) by (simp add: add.assoc)
  have le: "c + 1 \<le> mx" using Cons.prems(4) by simp
  then have c: "xs = [] \<or> (c + 1) + int (length xs) \<le> mx" using Cons.prems(4) by simp
  from Cons.IH[OF p1 a z c, of "arr @ [x]"]
  obtain s' where "walk sq mx msg (it + 1) (arr @ [x]) (c + 1) s1 = Some (Inr ((arr @ [x]) @ xs), s')" "P s'"
    by blast
  then show ?case using nx le by (subst walk.simps) simp
qed

lemma walk_failure:
  assumes b: "behaves sq P ev g"
  shows "P s \<Longrightarrow> \<forall>j\<le>nat (mx - c). g (it + int j) \<noteq> Opt_NONE \<Longrightarrow>
         \<exists>s'. walk sq mx msg it arr c s = Some (Inl (Error msg), s') \<and> P s'"
proof (induction "nat (mx - c)" arbitrary: it c s arr)
  case 0
  have "g it \<noteq> Opt_NONE" using 0(3) by force
  then obtain x where gk: "g it = Opt_SOME x" by (cases "g it") auto
  from iterator_next_behaves[OF b 0(2), of it] gk
  obtain s1 where nx: "iterator_next sq it s = Some (Yield x, it + 1, s1)" and p1: "P s1"
    by (auto simp: fold_Option_def)
  have "c + 1 > mx" using 0(1) by simp
  then show ?case using nx p1 by (subst walk.simps) simp
next
  case (Suc k)
  have "g it \<noteq> Opt_NONE" using Suc.prems(2) by force
  then obtain x where gk: "g it = Opt_SOME x" by (cases "g it") auto
  from iterator_next_behaves[OF b Suc.prems(1), of it] gk
  obtain s1 where nx: "iterator_next sq it s = Some (Yield x, it + 1, s1)" and p1: "P s1"
    by (auto simp: fold_Option_def)
  have le: "\<not> c + 1 > mx" using Suc.hyps(2) by simp
  have k: "k = nat (mx - (c + 1))" using Suc.hyps(2) by simp
  have a: "\<forall>j\<le>nat (mx - (c + 1)). g (it + 1 + int j) \<noteq> Opt_NONE"
  proof (intro allI impI)
    fix j assume "j \<le> nat (mx - (c + 1))"
    then have "Suc j \<le> nat (mx - c)" using Suc.hyps(2) by simp
    then have "g (it + int (Suc j)) \<noteq> Opt_NONE" using Suc.prems(2) by blast
    then show "g (it + 1 + int j) \<noteq> Opt_NONE" by (simp add: add.assoc)
  qed
  from Suc.hyps(1)[OF k p1 a, of "arr @ [x]"]
  obtain s' where "walk sq mx msg (it + 1) (arr @ [x]) (c + 1) s1 = Some (Inl (Error msg), s')" "P s'"
    by blast
  then show ?case using nx le by (subst walk.simps) simp
qed


text \<open>
  C4. \<open>length(max)\<close>, \<open>reverse(max)\<close> and \<open>toArray(seq, max)\<close> walk the sequence with a
  counter. When the walk ends with the counter never above \<open>max\<close> (the sequence has no
  element, or at most \<open>max\<close> elements), the result is the success variant with the full
  value. When the sequence has more than \<open>max\<close> elements (and at least one), the result
  is the failure variant carrying the error raised, never a partial value. An omitted
  \<open>max\<close> is 10000. \<open>fromArray([1,2,3,4,5]).length(2)\<close> is a failure and \<open>.length(10)\<close> is
  \<open>success(5)\<close>.
\<close>

theorem bounded_operations_cap:
  assumes "behaves sq P ev g" and "P s"
  shows "((\<forall>j<length xs. g (int j) = Opt_SOME (xs ! j)) \<and> g (int (length xs)) = Opt_NONE \<and>
          (xs = [] \<or> int (length xs) \<le> m) \<longrightarrow>
            (\<exists>s'. length_seq sq (Some m) s = Some (SUCCESS (int (length xs)), s')) \<and>
            (\<exists>s'. reverse sq (Some m) s = Some (SUCCESS (fromArray (rev xs)), s')) \<and>
            (\<exists>s'. toArray sq (Some m) s = Some (SUCCESS xs, s')))
       \<and> ((\<forall>j\<le>nat m. g (int j) \<noteq> Opt_NONE) \<longrightarrow>
            (\<exists>s'. length_seq sq (Some m) s = Some (FAILURE (Error ''Too large''), s')) \<and>
            (\<exists>s'. reverse sq (Some m) s
                   = Some (FAILURE (Error ''Cannot reverse an unbounded or very large sequence''), s')) \<and>
            (\<exists>s'. toArray sq (Some m) s
                   = Some (FAILURE (Error ''Cannot convert an unbounded or very large sequence''), s')))
       \<and> length_seq sq None s = length_seq sq (Some 10000) s
       \<and> reverse sq None s = reverse sq (Some 10000) s
       \<and> toArray sq None s = toArray sq (Some 10000) s
       \<and> length_seq (fromArray [Value (1::int), Value 2, Value 3, Value 4, Value 5]) (Some 2) (new_cache ())
           = Some (FAILURE (Error ''Too large''), [Value 1, Value 2, Value 3], ())
       \<and> length_seq (fromArray [Value (1::int), Value 2, Value 3, Value 4, Value 5]) (Some 10) (new_cache ())
           = Some (SUCCESS 5, [Value 1, Value 2, Value 3, Value 4, Value 5], ())"
proof (intro conjI impI)
  assume h: "(\<forall>j<length xs. g (int j) = Opt_SOME (xs ! j)) \<and> g (int (length xs)) = Opt_NONE \<and>
          (xs = [] \<or> int (length xs) \<le> m)"
  then have a: "\<forall>j<length xs. g (0 + int j) = Opt_SOME (xs ! j)"
    and z: "g (0 + int (length xs)) = Opt_NONE"
    and c: "xs = [] \<or> 0 + int (length xs) \<le> m" by simp_all
  have a': "\<forall>j<length xs. g (0 + int j) \<noteq> Opt_NONE" using a by simp
  have c': "length xs = 0 \<or> 0 + int (length xs) \<le> m" using c by auto
  from length_loop_success[OF assms(1) assms(2) a' z c']
  show "\<exists>s'. length_seq sq (Some m) s = Some (SUCCESS (int (length xs)), s')"
    by (auto simp: length_seq_def attempt_def)
  from walk_success[OF assms(1) assms(2) a z c,
      where msg = "''Cannot reverse an unbounded or very large sequence''" and arr = "[]"]
  show "\<exists>s'. reverse sq (Some m) s = Some (SUCCESS (fromArray (rev xs)), s')"
    by (fastforce simp: reverse_def attempt_def)
  from walk_success[OF assms(1) assms(2) a z c,
      where msg = "''Cannot convert an unbounded or very large sequence''" and arr = "[]"]
  show "\<exists>s'. toArray sq (Some m) s = Some (SUCCESS xs, s')"
    by (fastforce simp: toArray_def attempt_def)
next
  assume "\<forall>j\<le>nat m. g (int j) \<noteq> Opt_NONE"
  then have a: "\<forall>j\<le>nat (m - 0). g (0 + int j) \<noteq> Opt_NONE" by simp
  from length_loop_failure[OF assms(1) assms(2) a]
  show "\<exists>s'. length_seq sq (Some m) s = Some (FAILURE (Error ''Too large''), s')"
    by (auto simp: length_seq_def attempt_def)
  from walk_failure[OF assms(1) assms(2) a,
      where msg = "''Cannot reverse an unbounded or very large sequence''" and arr = "[]"]
  show "\<exists>s'. reverse sq (Some m) s
          = Some (FAILURE (Error ''Cannot reverse an unbounded or very large sequence''), s')"
    by (fastforce simp: reverse_def attempt_def)
  from walk_failure[OF assms(1) assms(2) a,
      where msg = "''Cannot convert an unbounded or very large sequence''" and arr = "[]"]
  show "\<exists>s'. toArray sq (Some m) s
          = Some (FAILURE (Error ''Cannot convert an unbounded or very large sequence''), s')"
    by (fastforce simp: toArray_def attempt_def)
next
  show "length_seq sq None s = length_seq sq (Some 10000) s" by (simp add: length_seq_def)
  show "reverse sq None s = reverse sq (Some 10000) s" by (simp add: reverse_def)
  show "toArray sq None s = toArray sq (Some 10000) s" by (simp add: toArray_def)
next
  show "length_seq (fromArray [Value (1::int), Value 2, Value 3, Value 4, Value 5]) (Some 2) (new_cache ())
           = Some (FAILURE (Error ''Too large''), [Value 1, Value 2, Value 3], ())"
    by (simp add: length_seq_def length_loop.simps attempt_def engine_eval fromArray_eval)
next
  show "length_seq (fromArray [Value (1::int), Value 2, Value 3, Value 4, Value 5]) (Some 10) (new_cache ())
           = Some (SUCCESS 5, [Value 1, Value 2, Value 3, Value 4, Value 5], ())"
    by (simp add: length_seq_def length_loop.simps attempt_def engine_eval fromArray_eval)
qed

lemma fromArray_nil_free_visible:
  assumes "\<forall>v\<in>set arr. \<not> isNil v"
  shows "(\<forall>j<length arr. element (array_sem arr) (int j) = Opt_SOME (arr ! j)) \<and>
         element (array_sem arr) (int (length arr)) = Opt_NONE"
  using assms by (simp add: element_array_sem optional_isNil)

theorem bounded_operations_cap_witness:
  "behaves (fromArray [Value (1::int), Value 2, Value 3, Value 4, Value 5])
      (cache_inv (array_sem [Value 1, Value 2, Value 3, Value 4, Value 5]) any_world) evaluated
      (element (array_sem [Value 1, Value 2, Value 3, Value 4, Value 5])) \<and>
   (\<exists>s'. length_seq (fromArray [Value (1::int), Value 2, Value 3, Value 4, Value 5]) (Some 10) (new_cache ())
          = Some (SUCCESS 5, s')) \<and>
   (\<exists>s'. toArray (fromArray [Value (1::int), Value 2, Value 3, Value 4, Value 5]) (Some 5) (new_cache ())
          = Some (SUCCESS [Value 1, Value 2, Value 3, Value 4, Value 5], s')) \<and>
   (\<exists>s'. length_seq (fromArray [Value (1::int), Value 2, Value 3, Value 4, Value 5]) (Some 2) (new_cache ())
          = Some (FAILURE (Error ''Too large''), s')) \<and>
   (\<exists>s'. toArray (fromArray [Value (1::int), Value 2, Value 3, Value 4, Value 5]) (Some 4) (new_cache ())
          = Some (FAILURE (Error ''Cannot convert an unbounded or very large sequence''), s'))"
proof -
  let ?arr = "[Value (1::int), Value 2, Value 3, Value 4, Value 5]"
  let ?g = "element (array_sem ?arr)"
  have b: "behaves (fromArray ?arr) (cache_inv (array_sem ?arr) any_world) evaluated ?g"
    by (rule fromArray_behaves)
  have p: "cache_inv (array_sem ?arr) any_world (new_cache ())" by (rule new_cache_inv)
  have nn: "\<forall>v\<in>set ?arr. \<not> isNil v" by simp
  note vis = fromArray_nil_free_visible[OF nn]
  have ok10: "(\<forall>j<length ?arr. ?g (int j) = Opt_SOME (?arr ! j)) \<and> ?g (int (length ?arr)) = Opt_NONE \<and>
          (?arr = [] \<or> int (length ?arr) \<le> 10)" using vis by simp
  have ok5: "(\<forall>j<length ?arr. ?g (int j) = Opt_SOME (?arr ! j)) \<and> ?g (int (length ?arr)) = Opt_NONE \<and>
          (?arr = [] \<or> int (length ?arr) \<le> 5)" using vis by simp
  have more2: "\<forall>j\<le>nat 2. ?g (int j) \<noteq> Opt_NONE"
  proof (intro allI impI)
    fix j :: nat assume "j \<le> nat 2"
    then have "j < length ?arr" by simp
    then show "?g (int j) \<noteq> Opt_NONE" using vis by auto
  qed
  have more4: "\<forall>j\<le>nat 4. ?g (int j) \<noteq> Opt_NONE"
  proof (intro allI impI)
    fix j :: nat assume "j \<le> nat 4"
    then have "j < length ?arr" by simp
    then show "?g (int j) \<noteq> Opt_NONE" using vis by auto
  qed
  note th = bounded_operations_cap[OF b p]
  have r1: "\<exists>s'. length_seq (fromArray ?arr) (Some 10) (new_cache ()) = Some (SUCCESS 5, s')"
    using th[where xs = ?arr and m = 10, THEN conjunct1, THEN mp, OF ok10] by simp
  have r2: "\<exists>s'. toArray (fromArray ?arr) (Some 5) (new_cache ()) = Some (SUCCESS ?arr, s')"
    using th[where xs = ?arr and m = 5, THEN conjunct1, THEN mp, OF ok5] by simp
  have r3: "\<exists>s'. length_seq (fromArray ?arr) (Some 2) (new_cache ())
          = Some (FAILURE (Error ''Too large''), s')"
    using th[where m = 2, THEN conjunct2, THEN conjunct1, THEN mp, OF more2] by simp
  have r4: "\<exists>s'. toArray (fromArray ?arr) (Some 4) (new_cache ())
          = Some (FAILURE (Error ''Cannot convert an unbounded or very large sequence''), s')"
    using th[where m = 4, THEN conjunct2, THEN conjunct1, THEN mp, OF more4] by simp
  show ?thesis using b r1 r2 r3 r4 by simp
qed

section \<open>\<open>flatMap\<close>\<close>

lemma emit_array_sem_Nil [simp]: "emit (array_sem [] 0) = Done"
  by (simp add: emit_def array_sem_def)

lemma emit_array_sem_Cons [simp]: "emit (array_sem (v # vs) 0) = Yield v"
  by (simp add: emit_def array_sem_def)




lemma array_sem_drop: "array_sem (List.drop n vs) 0 = array_sem vs n"
  by (auto simp: array_sem_def)






section \<open>\<open>sliceBy\<close>\<close>

lemma slices_spec_Nil [simp]: "slices_spec p [] = []"
  by (simp add: slices_spec.simps)

lemma slices_spec_no_boundary:
  assumes "xs \<noteq> []" and "\<forall>x\<in>set xs. \<not> p x"
  shows "slices_spec p xs = [xs]"
proof -
  have "dropWhile (\<lambda>x. \<not> p x) xs = []" using assms(2) by (simp add: dropWhile_eq_Nil_conv)
  then show ?thesis using assms(1)
    by (subst slices_spec.simps) (simp del: dropWhile_eq_Nil_conv)
qed

lemma slices_spec_boundary:
  "\<forall>x\<in>set pre. \<not> p x \<Longrightarrow> p b \<Longrightarrow> slices_spec p (pre @ b # rest) = pre # slices_spec p rest"
  by (subst slices_spec.simps) (simp add: dropWhile_append2 takeWhile_append2)

lemma sliceBy_bucket_ok:
  assumes b: "behaves sq P ev g"
    and xa: "\<forall>j<length xs. g (int j) = Opt_SOME (xs ! j)"
    and xz: "g (int (length xs)) = Opt_NONE"
  shows "p \<le> length xs \<Longrightarrow> P s \<Longrightarrow>
         \<exists>s'. sliceBy_bucket fn sq (int p) bucket s
                = Some (dropWhile (\<lambda>x. \<not> fn x) (List.drop p xs) = [],
                        bucket @ takeWhile (\<lambda>x. \<not> fn x) (List.drop p xs),
                        int (p + length (takeWhile (\<lambda>x. \<not> fn x) (List.drop p xs)) + 1), s') \<and> P s'"
proof (induction "length xs - p" arbitrary: p s bucket)
  case 0
  then have p: "p = length xs" by simp
  from iterator_next_behaves[OF b 0(3), of "int p"] xz p
  obtain s' where "iterator_next sq (int p) s = Some (Done, int p + 1, s')" "P s'"
    by (auto simp: fold_Option_def)
  then show ?case using p by (subst sliceBy_bucket.simps) simp
next
  case (Suc k)
  then have lt: "p < length xs" by simp
  let ?x = "xs ! p"
  have dr: "List.drop p xs = ?x # List.drop (Suc p) xs" using lt by (simp add: Cons_nth_drop_Suc)
  have gx: "g (int p) = Opt_SOME ?x" using xa lt by simp
  from iterator_next_behaves[OF b Suc.prems(2), of "int p"] gx
  obtain s1 where nx: "iterator_next sq (int p) s = Some (Yield ?x, int p + 1, s1)" and p1: "P s1"
    by (auto simp: fold_Option_def)
  show ?case
  proof (cases "fn ?x")
    case True
    then show ?thesis using nx p1 dr by (subst sliceBy_bucket.simps) simp
  next
    case False
    have k: "k = length xs - Suc p" using Suc.hyps(2) by simp
    have le: "Suc p \<le> length xs" using lt by simp
    from Suc.hyps(1)[OF k le p1, of "bucket @ [?x]"]
    obtain s' where r: "sliceBy_bucket fn sq (int (Suc p)) (bucket @ [?x]) s1
                = Some (dropWhile (\<lambda>x. \<not> fn x) (List.drop (Suc p) xs) = [],
                        (bucket @ [?x]) @ takeWhile (\<lambda>x. \<not> fn x) (List.drop (Suc p) xs),
                        int (Suc p + length (takeWhile (\<lambda>x. \<not> fn x) (List.drop (Suc p) xs)) + 1), s')"
      and ps': "P s'" by blast
    have "sliceBy_bucket fn sq (int p) bucket s = sliceBy_bucket fn sq (int (Suc p)) (bucket @ [?x]) s1"
      using nx False by (subst sliceBy_bucket.simps) (simp add: add.commute)
    then show ?thesis using r ps' dr False by simp
  qed
qed


lemma sliceBy_next_ok:
  assumes b: "behaves sq P ev g"
    and xa: "\<forall>j<length xs. g (int j) = Opt_SOME (xs ! j)"
    and xz: "g (int (length xs)) = Opt_NONE"
    and sc: "slice_cursor fn xs c rem" and ps: "P s"
  shows "\<exists>c' s'. next (sliceBy_source fn sq) c s
                   = Some (emit (array_sem (map (\<lambda>b. Value (fromArray b)) rem) 0), c', s') \<and>
                 P s' \<and> (rem \<noteq> [] \<longrightarrow> slice_cursor fn xs c' (tl rem))"
proof (cases "snd c")
  case True
  then have "rem = []" using sc by (simp add: slice_cursor_def)
  then show ?thesis using True ps by (cases c) (auto simp: sliceBy_source_def)
next
  case False
  then obtain p where p: "p \<le> length xs" "fst c = int p"
    and rem: "rem = slices_spec fn (List.drop p xs)"
    using sc by (auto simp: slice_cursor_def)
  let ?r = "List.drop p xs"
  let ?tw = "takeWhile (\<lambda>x. \<not> fn x) ?r"
  let ?dw = "dropWhile (\<lambda>x. \<not> fn x) ?r"
  let ?it = "int (p + length ?tw + 1)"
  have c: "c = (int p, False)" using p(2) False by (cases c) simp
  from sliceBy_bucket_ok[OF b xa xz p(1) ps, of fn "[]"]
  obtain s' it' where bk: "sliceBy_bucket fn sq (int p) [] s = Some (?dw = [], ?tw, it', s')"
    and it': "it' = ?it" and ps': "P s'" by auto
  have split: "?tw @ ?dw = ?r" by simp
  show ?thesis
  proof (cases "?dw")
    case Nil
    then have tw: "?tw = ?r" using split by simp
    have nob: "\<forall>x\<in>set ?r. \<not> fn x" using Nil by (simp add: dropWhile_eq_Nil_conv)
    show ?thesis
    proof (cases "?r = []")
      case True
      then have "rem = []" using rem by simp
      moreover have "next (sliceBy_source fn sq) c s = Some (Done, (it', True), s')"
        using bk Nil tw True c by (simp add: sliceBy_source_def)
      ultimately show ?thesis using ps' by auto
    next
      case False
      then have r1: "rem = [?r]" using rem nob by (simp add: slices_spec_no_boundary)
      have "next (sliceBy_source fn sq) c s
              = Some (Yield (Value (fromArray ?r)), (it', True), s')"
        using bk Nil tw False c by (simp add: sliceBy_source_def)
      moreover have "slice_cursor fn xs (it', True) []" by (simp add: slice_cursor_def)
      ultimately show ?thesis using ps' r1 by auto
    qed
  next
    case (Cons bd rest)
    have fb: "fn bd" using Cons by (metis hd_dropWhile list.sel(1) list.distinct(1))
    have ntw: "\<forall>x\<in>set ?tw. \<not> fn x" by (auto dest: set_takeWhileD)
    have r: "?r = ?tw @ bd # rest" using split Cons by simp
    then have r1: "rem = ?tw # slices_spec fn rest"
      using rem slices_spec_boundary[OF ntw fb, of rest] by simp
    have nx: "next (sliceBy_source fn sq) c s
              = Some (Yield (Value (fromArray ?tw)), (it', False), s')"
      using bk Cons c by (simp add: sliceBy_source_def)
    have len: "length ?r = length ?tw + 1 + length rest" using arg_cong[OF r, of length] by simp
    then have le: "p + length ?tw + 1 \<le> length xs" using p(1) by simp
    have "List.drop (length ?tw + 1) ?r = rest" using r
      by (metis append_eq_conv_conj drop_Suc_Cons drop_drop add.commute plus_1_eq_Suc drop0)
    then have dr: "List.drop (p + length ?tw + 1) xs = rest" by (simp add: add.commute add.left_commute)
    have "slice_cursor fn xs (it', False) (slices_spec fn rest)"
      unfolding slice_cursor_def it' using le dr by (auto intro!: exI[of _ "p + length ?tw + 1"])
    then show ?thesis using nx ps' r1 by auto
  qed
qed

lemma sliceBy_yields:
  assumes b: "behaves sq P ev g"
    and xa: "\<forall>j<length xs. g (int j) = Opt_SOME (xs ! j)"
    and xz: "g (int (length xs)) = Opt_NONE"
  shows "yields (sliceBy_source fn sq)
           (\<lambda>n c. slice_cursor fn xs c (List.drop n (slices_spec fn xs))) P
           (array_sem (map (\<lambda>b. Value (fromArray b)) (slices_spec fn xs)))"
  unfolding yields_def
proof (intro conjI allI impI)
  show "slice_cursor fn xs (fresh (sliceBy_source fn sq)) (List.drop 0 (slices_spec fn xs))"
    by (simp add: slice_cursor_def sliceBy_source_def)
next
  fix n c w
  let ?S = "slices_spec fn xs"
  let ?out = "map (\<lambda>b. Value (fromArray b)) ?S"
  assume h: "live (array_sem ?out) n \<and> slice_cursor fn xs c (List.drop n ?S) \<and> P w"
  from sliceBy_next_ok[OF b xa xz, of fn c "List.drop n ?S" w] h
  obtain c' w' where st: "next (sliceBy_source fn sq) c w
        = Some (emit (array_sem (map (\<lambda>b. Value (fromArray b)) (List.drop n ?S)) 0), c', w')"
    and pw: "P w'"
    and fc: "List.drop n ?S \<noteq> [] \<longrightarrow> slice_cursor fn xs c' (tl (List.drop n ?S))"
    by blast
  have nx: "next (sliceBy_source fn sq) c w = Some (emit (array_sem ?out n), c', w')"
    using st by (simp add: drop_map[symmetric] array_sem_drop)
  have "array_sem ?out n \<noteq> None \<longrightarrow> slice_cursor fn xs c' (List.drop (Suc n) ?S)"
  proof
    assume "array_sem ?out n \<noteq> None"
    then have "n < length ?S" by (simp add: array_sem_def split: if_splits)
    then have "List.drop n ?S \<noteq> []" by simp
    then show "slice_cursor fn xs c' (List.drop (Suc n) ?S)"
      using fc by (simp add: drop_Suc tl_drop)
  qed
  then show "\<exists>c' w'. next (sliceBy_source fn sq) c w = Some (emit (array_sem ?out n), c', w') \<and>
      (array_sem ?out n \<noteq> None \<longrightarrow> slice_cursor fn xs c' (List.drop (Suc n) ?S)) \<and> P w'"
    using nx pw by blast
qed

lemma sliceBy_consume:
  assumes b: "behaves sq P ev g" and ps: "P s"
    and xa: "\<forall>j<length xs. g (int j) = Opt_SOME (xs ! j)"
    and xz: "g (int (length xs)) = Opt_NONE"
  shows "\<exists>s'. toArrayUnsafe (sliceBy fn sq) (new_cache s)
                = Some (map (\<lambda>b. Value (fromArray b)) (slices_spec fn xs), s')"
proof -
  let ?out = "map (\<lambda>b. Value (fromArray b)) (slices_spec fn xs)"
  have bz: "behaves (sliceBy fn sq) (cache_inv (array_sem ?out) P) evaluated (element (array_sem ?out))"
    unfolding sliceBy_def by (rule create_behaves[OF sliceBy_yields[OF b xa xz]])
  have p0: "cache_inv (array_sem ?out) P (new_cache s)"
    using ps by (simp add: cache_inv_def new_cache_def)
  have nn: "\<forall>v\<in>set ?out. \<not> isNil v" by auto
  from fromArray_nil_free_visible[OF nn]
  have el: "\<forall>j<length ?out. element (array_sem ?out) (0 + int j) = Opt_SOME (?out ! j)"
    and z: "element (array_sem ?out) (0 + int (length ?out)) = Opt_NONE" by simp_all
  from spread_behaves[OF bz p0 el z, of "[]"]
  show ?thesis by (auto simp: toArrayUnsafe_def)
qed


lemmas sliceBy_eval = sliceBy_def sliceBy_source_def sliceBy_bucket.simps

section \<open>Presence of elements\<close>

text \<open>
  C2 (counterexample). The source of \<open>fromArray([1, undefined, 3])\<close> yields an element at
  position 1, and \<open>get(1)\<close> is the absent variant.
\<close>

theorem get_nil_element_absent_counterexample:
  "next (fromArray_source [Value (1::int), Undefined, Value 3]) 1 () = Some (Yield Undefined, 2, ()) \<and>
   get (fromArray [Value (1::int), Undefined, Value 3]) 1 (new_cache ())
     = Some (Opt_NONE, [Value 1, Undefined], ())"
  by (simp add: engine_eval fromArray_eval)

lemma some_not_nil: "\<not> isNil v \<Longrightarrow> some v = Inr (Opt_SOME v)"
  by (simp add: some_def)

lemma find_loop_behaves:
  assumes b: "behaves sq P ev g"
  shows "P s \<Longrightarrow> \<forall>j<length xs. g (it + int j) = Opt_SOME (xs ! j) \<Longrightarrow>
         g (it + int (length xs)) = Opt_NONE \<Longrightarrow> \<forall>x\<in>set xs. \<not> isNil x \<Longrightarrow>
         \<exists>s'. find_loop sq fn it s
                = Some (Inr (case List.find fn xs of None \<Rightarrow> Opt_NONE | Some v \<Rightarrow> Opt_SOME v), s')"
proof (induction xs arbitrary: it s)
  case Nil
  from iterator_next_behaves[OF b Nil(1), of it] Nil(3)
  show ?case by (subst find_loop.simps) (auto simp: fold_Option_def)
next
  case (Cons x xs)
  have gk: "g it = Opt_SOME x" using Cons.prems(2) by force
  from iterator_next_behaves[OF b Cons.prems(1), of it] gk
  obtain s1 where nx: "iterator_next sq it s = Some (Yield x, it + 1, s1)" and p1: "P s1"
    by (auto simp: fold_Option_def)
  have nn: "\<not> isNil x" using Cons.prems(4) by simp
  show ?case
  proof (cases "fn x")
    case True
    then show ?thesis using nx nn by (subst find_loop.simps) (simp add: some_not_nil)
  next
    case False
    have a: "\<forall>j<length xs. g (it + 1 + int j) = Opt_SOME (xs ! j)"
    proof (intro allI impI)
      fix j assume "j < length xs"
      then have "g (it + int (Suc j)) = Opt_SOME ((x # xs) ! Suc j)" using Cons.prems(2) by force
      then show "g (it + 1 + int j) = Opt_SOME (xs ! j)" by (simp add: add.assoc)
    qed
    have z: "g (it + 1 + int (length xs)) = Opt_NONE" using Cons.prems(3) by (simp add: add.assoc)
    have n': "\<forall>x\<in>set xs. \<not> isNil x" using Cons.prems(4) by simp
    from Cons.IH[OF p1 a z n'] show ?thesis using nx False by (subst find_loop.simps) simp
  qed
qed

lemma last_loop_behaves:
  assumes b: "behaves sq P ev g"
  shows "P s \<Longrightarrow> \<forall>j<length xs. g (it + int j) = Opt_SOME (xs ! j) \<Longrightarrow>
         g (it + int (length xs)) = Opt_NONE \<Longrightarrow> \<forall>x\<in>set xs. \<not> isNil x \<Longrightarrow>
         \<exists>s'. last_loop sq it l s
                = Some (Inr (if xs = [] then l else Opt_SOME (List.last xs)), s')"
proof (induction xs arbitrary: it s l)
  case Nil
  from iterator_next_behaves[OF b Nil(1), of it] Nil(3)
  show ?case by (subst last_loop.simps) (auto simp: fold_Option_def)
next
  case (Cons x xs)
  have gk: "g it = Opt_SOME x" using Cons.prems(2) by force
  from iterator_next_behaves[OF b Cons.prems(1), of it] gk
  obtain s1 where nx: "iterator_next sq it s = Some (Yield x, it + 1, s1)" and p1: "P s1"
    by (auto simp: fold_Option_def)
  have nn: "\<not> isNil x" using Cons.prems(4) by simp
  have a: "\<forall>j<length xs. g (it + 1 + int j) = Opt_SOME (xs ! j)"
  proof (intro allI impI)
    fix j assume "j < length xs"
    then have "g (it + int (Suc j)) = Opt_SOME ((x # xs) ! Suc j)" using Cons.prems(2) by force
    then show "g (it + 1 + int j) = Opt_SOME (xs ! j)" by (simp add: add.assoc)
  qed
  have z: "g (it + 1 + int (length xs)) = Opt_NONE" using Cons.prems(3) by (simp add: add.assoc)
  have n': "\<forall>x\<in>set xs. \<not> isNil x" using Cons.prems(4) by simp
  from Cons.IH[OF p1 a z n', of "Opt_SOME x"] show ?case using nx nn
    by (subst last_loop.simps) (auto simp: some_not_nil)
qed

lemma element_Some_not_nil: "element sem i = Opt_SOME v \<Longrightarrow> \<not> isNil v"
  by (auto simp: element_def optional_isNil split: if_splits)

text \<open>
  C2 (amended). The element-presence queries return Option values: \<open>get(i)\<close>, \<open>head()\<close>
  (which is \<open>get(0)\<close>), and \<open>last()\<close> and \<open>find(fn)\<close>, which on a sequence with finitely many
  elements return the last element and the first one satisfying \<open>fn\<close> as present values,
  or the absent variant, and never throw. For every sequence whose source yields an
  element \<open>v\<close> at position \<open>i\<close>, \<open>get(i)\<close> is the present variant carrying exactly \<open>v\<close> when
  \<open>v\<close> is neither null nor undefined, and the absent variant when it is.
\<close>

theorem get_present_iff_element_not_nil:
  assumes "yields src rel invW sem" and "cache_ok sem cache" and "invW w"
  shows "(live sem (Suc i) \<and> sem i = Some v \<longrightarrow>
            (\<exists>cache' w'. get (create src) (int i) (cache, w)
               = Some (if isNil v then Opt_NONE else Opt_SOME v, cache', w')))
       \<and> head (create src) (cache, w) = get (create src) 0 (cache, w)
       \<and> ((\<forall>j<length xs. element sem (int j) = Opt_SOME (xs ! j)) \<and>
           element sem (int (length xs)) = Opt_NONE \<longrightarrow>
            (\<exists>s'. last_seq (create src) (cache, w)
                   = Some (Inr (if xs = [] then Opt_NONE else Opt_SOME (List.last xs)), s')) \<and>
            (\<exists>s'. find_seq (create src) fn (cache, w)
                   = Some (Inr (case List.find fn xs of None \<Rightarrow> Opt_NONE
                                | Some x \<Rightarrow> Opt_SOME x), s')))"
proof (intro conjI impI)
  assume h: "live sem (Suc i) \<and> sem i = Some v"
  then have "element sem (int i) = (if isNil v then Opt_NONE else Opt_SOME v)"
    by (simp add: element_def optional_isNil)
  then show "\<exists>cache' w'. get (create src) (int i) (cache, w)
               = Some (if isNil v then Opt_NONE else Opt_SOME v, cache', w')"
    using create_behaves_aux[OF assms(1,2,3), of "int i"] by auto
next
  show "head (create src) (cache, w) = get (create src) 0 (cache, w)" by (simp add: head_def)
next
  assume h: "(\<forall>j<length xs. element sem (int j) = Opt_SOME (xs ! j)) \<and>
           element sem (int (length xs)) = Opt_NONE"
  have b: "behaves (create src) (cache_inv sem invW) evaluated (element sem)"
    by (rule create_behaves[OF assms(1)])
  have p: "cache_inv sem invW (cache, w)" using assms(2,3) by (simp add: cache_inv_def)
  have a: "\<forall>j<length xs. element sem (0 + int j) = Opt_SOME (xs ! j)" using h by simp
  have z: "element sem (0 + int (length xs)) = Opt_NONE" using h by simp
  have nn: "\<forall>x\<in>set xs. \<not> isNil x"
  proof
    fix x assume "x \<in> set xs"
    then obtain j where "j < length xs" "xs ! j = x" by (auto simp: in_set_conv_nth)
    then have "element sem (int j) = Opt_SOME x" using h by auto
    then show "\<not> isNil x" by (rule element_Some_not_nil)
  qed
  from last_loop_behaves[OF b p a z nn, of Opt_NONE]
  show "\<exists>s'. last_seq (create src) (cache, w)
          = Some (Inr (if xs = [] then Opt_NONE else Opt_SOME (List.last xs)), s')"
    by (simp add: last_seq_def)
  from find_loop_behaves[OF b p a z nn, of fn]
  show "\<exists>s'. find_seq (create src) fn (cache, w)
          = Some (Inr (case List.find fn xs of None \<Rightarrow> Opt_NONE | Some x \<Rightarrow> Opt_SOME x), s')"
    by (simp add: find_seq_def)
qed

theorem get_present_iff_element_not_nil_witness:
  "yields (fromArray_source [Value (1::int), Null, Value 3]) at_position any_world
      (array_sem [Value 1, Null, Value 3]) \<and>
   live (array_sem [Value (1::int), Null, Value 3]) (Suc 2) \<and>
   (\<exists>cache' w'. get (fromArray [Value (1::int), Null, Value 3]) 2 ([], ())
        = Some (Opt_SOME (Value 3), cache', w')) \<and>
   (\<exists>cache' w'. get (fromArray [Value (1::int), Null, Value 3]) 1 ([], ())
        = Some (Opt_NONE, cache', w')) \<and>
   (\<exists>s'. last_seq (fromArray [Value (1::int), Value 2, Value 3]) ([], ())
        = Some (Inr (Opt_SOME (Value 3)), s')) \<and>
   (\<exists>s'. find_seq (fromArray [Value (1::int), Value 2, Value 3]) (\<lambda>x. x = Value 2) ([], ())
        = Some (Inr (Opt_SOME (Value 2)), s'))"
proof -
  let ?arr = "[Value (1::int), Null, Value 3]"
  let ?xs = "[Value (1::int), Value 2, Value 3]"
  have y: "yields (fromArray_source ?arr) at_position any_world (array_sem ?arr)"
    by (rule fromArray_yields)
  have l: "live (array_sem ?arr) (Suc 2)" "live (array_sem ?arr) (Suc 1)"
    by (simp_all add: live_def array_sem_def)
  have w: "any_world ()" by (simp add: any_world_def)
  have s: "array_sem ?arr 2 = Some (Value 3)" "array_sem ?arr 1 = Some Null"
    by (simp_all add: array_sem_def)
  note th = get_present_iff_element_not_nil
  have r1: "\<exists>cache' w'. get (fromArray ?arr) 2 ([], ()) = Some (Opt_SOME (Value 3), cache', w')"
    using th[OF y cache_ok_Nil w, where i = 2 and v = "Value 3", THEN conjunct1] l(1) s(1)
    by (simp add: fromArray_def)
  have r2: "\<exists>cache' w'. get (fromArray ?arr) 1 ([], ()) = Some (Opt_NONE, cache', w')"
    using th[OF y cache_ok_Nil w, where i = 1 and v = Null, THEN conjunct1] l(2) s(2)
    by (simp add: fromArray_def)
  have nn: "\<forall>v\<in>set ?xs. \<not> isNil v" by simp
  have vis: "(\<forall>j<length ?xs. element (array_sem ?xs) (int j) = Opt_SOME (?xs ! j)) \<and>
       element (array_sem ?xs) (int (length ?xs)) = Opt_NONE"
    by (rule fromArray_nil_free_visible[OF nn])
  note th3 = th[OF fromArray_yields cache_ok_Nil w, where xs = ?xs and fn = "\<lambda>x. x = Value 2",
      THEN conjunct2, THEN conjunct2, THEN mp, OF vis]
  have r3: "\<exists>s'. last_seq (fromArray ?xs) ([], ()) = Some (Inr (Opt_SOME (Value 3)), s')"
    using th3[THEN conjunct1] by (simp add: fromArray_def)
  have r4: "\<exists>s'. find_seq (fromArray ?xs) (\<lambda>x. x = Value 2) ([], ())
              = Some (Inr (Opt_SOME (Value 2)), s')"
    using th3[THEN conjunct2] by (simp add: fromArray_def)
  show ?thesis using y l(1) r1 r2 r3 r4 by simp
qed

section \<open>\<open>zip\<close>\<close>















lemma fst_view_behaves:
  assumes "behaves a Pa ev g"
  shows "behaves (fst_view a) (\<lambda>s. Pa (fst s) \<and> Q (snd s)) (\<lambda>s. ev (fst s)) g"
  unfolding behaves_def
proof (intro allI impI)
  fix i and s :: "'b \<times> 'c"
  assume h: "Pa (fst s) \<and> Q (snd s)"
  from behavesD[OF assms, of "fst s" i] h
  obtain s' where "get a i (fst s) = Some (g i, s')" "Pa s'" "ev (fst s) \<le> ev s'"
    "ev s' \<le> max (ev (fst s)) (nat (i + 1))" by blast
  then show "\<exists>s'. get (fst_view a) i s = Some (g i, s') \<and> (Pa (fst s') \<and> Q (snd s')) \<and>
      ev (fst s) \<le> ev (fst s') \<and> ev (fst s') \<le> max (ev (fst s)) (nat (i + 1))"
    using h by (cases s) (simp add: fst_view_def)
qed










section \<open>Sequences known up to a position\<close>

lemma yields_prefix_step:
  "yields_prefix src rel invW out \<Longrightarrow> n < length out \<Longrightarrow> rel n c \<Longrightarrow> invW w \<Longrightarrow>
   \<exists>c' w'. next src c w = Some (Yield (out ! n), c', w') \<and> rel (Suc n) c' \<and> invW w'"
  unfolding yields_prefix_def by blast

lemma fast_forward_prefix:
  assumes src: "yields_prefix src rel invW out" and n: "n \<le> length out"
  shows "rel i c \<Longrightarrow> invW w \<Longrightarrow> i \<le> n \<Longrightarrow>
         \<exists>c' w'. fast_forward src i n c w = Some (c', w') \<and> rel n c' \<and> invW w'"
proof (induction "n - i" arbitrary: i c w)
  case 0
  then show ?case by (simp add: fast_forward.simps)
next
  case (Suc k)
  then have lt: "i < n" by simp
  then have "i < length out" using n by simp
  then obtain c' w' where st: "next src c w = Some (Yield (out ! i), c', w')"
    and r: "rel (Suc i) c'" and iw: "invW w'"
    using yields_prefix_step[OF src _ Suc.prems(1) Suc.prems(2)] by blast
  have "k = n - Suc i" using Suc.hyps(2) by simp
  from Suc.hyps(1)[OF this r iw] lt
  obtain c'' w'' where "fast_forward src (Suc i) n c' w' = Some (c'', w'')" "rel n c''" "invW w''"
    by auto
  then show ?case using lt st by (subst fast_forward.simps) simp
qed

lemma prefix_take_eq: "prefix cache out \<Longrightarrow> cache = List.take (length cache) out"
  by (auto simp: prefix_def)

lemma fill_prefix:
  assumes src: "yields_prefix src rel invW out" and idx: "0 \<le> idx" "idx < int (length out)"
  shows "prefix cache out \<Longrightarrow> length cache \<le> nat idx + 1 \<Longrightarrow> rel (length cache) c \<Longrightarrow> invW w \<Longrightarrow>
         \<exists>w'. fill src idx cache c w
                 = Some (optional (out ! nat idx), List.take (nat idx + 1) out, w') \<and> invW w'"
proof (induction "nat idx + 1 - length cache" arbitrary: cache c w)
  case 0
  then have len: "length cache = nat idx + 1" by simp
  then have c: "cache = List.take (nat idx + 1) out" using prefix_take_eq[OF 0(2)] by simp
  have lt: "idx < int (length cache)" using len by linarith
  have "array_get cache idx = out ! nat idx"
    using lt idx c by (simp add: array_get_def)
  then show ?case using lt 0(5) c by (subst fill.simps) simp
next
  case (Suc k)
  have "length cache < nat idx + 1" using Suc.hyps(2) by simp
  then have le: "int (length cache) \<le> idx" using idx by linarith
  then have lo: "length cache < length out" using idx by linarith
  from yields_prefix_step[OF src lo Suc.prems(3) Suc.prems(4)]
  obtain c' w' where st: "next src c w = Some (Yield (out ! length cache), c', w')"
    and r: "rel (Suc (length cache)) c'" and iw: "invW w'" by blast
  let ?cache = "cache @ [out ! length cache]"
  have "?cache = List.take (Suc (length cache)) out"
    using prefix_take_eq[OF Suc.prems(1)] lo by (metis take_Suc_conv_app_nth)
  then have pf: "prefix ?cache out" by (metis take_is_prefix)
  have k: "k = nat idx + 1 - length ?cache" using Suc.hyps(2) by simp
  have l2: "length ?cache \<le> nat idx + 1" using le by simp
  have r': "rel (length ?cache) c'" using r by simp
  from Suc.hyps(1)[OF k pf l2 r' iw]
  obtain w'' where "fill src idx ?cache c' w'
      = Some (optional (out ! nat idx), List.take (nat idx + 1) out, w'')" "invW w''" by blast
  then show ?case using le st by (subst fill.simps) simp
qed

lemma cache_known_prefix:
  assumes "cache_known out cache" and "length cache \<le> length out"
  shows "prefix cache out"
proof -
  have "cache = List.take (length cache) out"
    using assms by (intro nth_equalityI) (auto simp: cache_known_def)
  then show ?thesis by (metis take_is_prefix)
qed

lemma cache_known_take: "cache_known out (List.take n out)"
  by (simp add: cache_known_def)

lemma create_prefix:
  assumes src: "yields_prefix src rel invW out" and ck: "cache_known out cache" and iw: "invW w"
    and idx: "0 \<le> idx" "idx < int (length out)"
  shows "\<exists>cache' w'. get (create src) idx (cache, w) = Some (optional (out ! nat idx), cache', w') \<and>
            cache_known out cache' \<and> invW w' \<and> prefix cache cache' \<and>
            length cache' \<le> max (length cache) (nat idx + 1)"
proof (cases "idx < int (length cache)")
  case True
  then have "nat idx < length cache" "nat idx < length out" using idx by linarith+
  then have "cache ! nat idx = out ! nat idx" using ck by (simp add: cache_known_def)
  then have "array_get cache idx = out ! nat idx"
    using idx True by (simp add: array_get_def)
  then show ?thesis using True ck iw by (simp add: get_create_hit)
next
  case False
  then have le: "length cache \<le> nat idx" using idx by linarith
  then have lo: "length cache \<le> length out" using idx by linarith
  have pf: "prefix cache out" by (rule cache_known_prefix[OF ck lo])
  have r0: "rel 0 (fresh src)" using src by (simp add: yields_prefix_def)
  obtain c' w' where ff: "fast_forward src 0 (length cache) (fresh src) w = Some (c', w')"
    and r: "rel (length cache) c'" and iw': "invW w'"
    using fast_forward_prefix[OF src lo r0 iw] by blast
  have l1: "length cache \<le> nat idx + 1" using le by simp
  from fill_prefix[OF src idx pf l1 r iw']
  obtain w'' where fl: "fill src idx cache c' w'
      = Some (optional (out ! nat idx), List.take (nat idx + 1) out, w'')" and iw'': "invW w''"
    by blast
  have "cache = List.take (length cache) out" by (rule prefix_take_eq[OF pf])
  then have "prefix cache (List.take (nat idx + 1) out)"
    using l1 by (metis take_is_prefix min.absorb1 take_take)
  then show ?thesis using False ff fl iw'' cache_known_take[of out "nat idx + 1"]
    by (simp add: get_create_miss)
qed

section \<open>\<open>flatMap\<close> of sequences that need not end\<close>







lemma range_yields:
  "yields (unfold_source (\<lambda>state. if num_le Infinity state then Opt_NONE
                                   else Opt_SOME (Value state, state + 1)) start)
     (\<lambda>n c. c = Opt_SOME (Value (start + int n), start + int n + 1)) any_world (range_sem start)"
  unfolding yields_def
  by (simp add: unfold_source_def isNone_def emit_def range_sem_def any_world_def add.assoc)

lemma range_behaves:
  "behaves (range start Infinity) (cache_inv (range_sem start) any_world) evaluated
     (element (range_sem start))"
  unfolding range_def unfold_def by (rule create_behaves[OF range_yields])

lemma range_new_cache: "cache_inv (range_sem start) any_world (new_cache ())"
  by (simp add: cache_inv_def new_cache_def any_world_def cache_ok_def)

lemma element_range: "element (range_sem start) (int j) = Opt_SOME (Value (start + int j))"
  by (simp add: element_def live_def range_sem_def)

lemmas range_eval = range_def unfold_def unfold_source_def isNone_def





lemma prefix_nth: "prefix A B \<Longrightarrow> i < length A \<Longrightarrow> A ! i = B ! i"
  by (auto simp: prefix_def nth_append)

lemma cache_known_prefix_out:
  "cache_known out cache \<Longrightarrow> prefix out' out \<Longrightarrow> cache_known out' cache"
  by (auto simp: cache_known_def prefix_def nth_append)

lemma cache_known_extend:
  assumes ck: "cache_known out cache" and ck': "cache_known out' cache'" and pf: "prefix out' out"
    and pc: "prefix cache cache'" and len: "length cache' \<le> max (length cache) (i + 1)"
    and i: "i < length out'"
  shows "cache_known out cache'"
  unfolding cache_known_def
proof (intro allI impI)
  fix j assume j: "j < length cache' \<and> j < length out"
  show "cache' ! j = out ! j"
  proof (cases "j < length cache")
    case True
    then have "cache' ! j = cache ! j" using pc by (simp add: prefix_nth)
    then show ?thesis using ck True j by (simp add: cache_known_def)
  next
    case False
    then have "j \<le> i" using j len by (simp add: max_def split: if_splits)
    then have jo: "j < length out'" using i by simp
    then have "cache' ! j = out' ! j" using ck' j by (simp add: cache_known_def)
    then show ?thesis using prefix_nth[OF pf jo] by simp
  qed
qed







section \<open>\<open>sliceBy\<close> of a sequence that need not end\<close>

lemma closed_slices_no_boundary: "\<forall>x\<in>set xs. \<not> p x \<Longrightarrow> closed_slices p xs = []"
proof -
  assume "\<forall>x\<in>set xs. \<not> p x"
  then have "filter p xs = []" by (simp add: filter_empty_conv)
  then show ?thesis by (simp add: closed_slices_def)
qed

lemma closed_slices_boundary:
  assumes "\<forall>x\<in>set pre. \<not> p x" and "p b"
  shows "closed_slices p (pre @ b # rest) = pre # closed_slices p rest"
proof -
  have "filter p pre = []" using assms(1) by (simp add: filter_empty_conv)
  then have "length (filter p (pre @ b # rest)) = Suc (length (filter p rest))"
    using assms(2) by simp
  then show ?thesis using slices_spec_boundary[OF assms, of rest] by (simp add: closed_slices_def)
qed

lemma boundary_cases:
  "(\<forall>x\<in>set xs. \<not> p x) \<or> (\<exists>pre b rest. xs = pre @ b # rest \<and> (\<forall>x\<in>set pre. \<not> p x) \<and> p b)"
proof (cases "\<exists>x\<in>set xs. p x")
  case True
  from split_list_first_prop[OF True] show ?thesis by blast
next
  case False
  then show ?thesis by blast
qed

lemma length_closed_slices: "length (closed_slices p xs) = length (filter p xs)"
proof (induction xs rule: length_induct)
  case (1 xs)
  from boundary_cases[of xs p] show ?case
  proof
    assume nb: "\<forall>x\<in>set xs. \<not> p x"
    then have "filter p xs = []" by (simp add: filter_empty_conv)
    then show ?thesis using closed_slices_no_boundary[OF nb] by simp
  next
    assume "\<exists>pre b rest. xs = pre @ b # rest \<and> (\<forall>x\<in>set pre. \<not> p x) \<and> p b"
    then obtain pre b rest where xs: "xs = pre @ b # rest" and nb: "\<forall>x\<in>set pre. \<not> p x" and pb: "p b"
      by blast
    have "filter p pre = []" using nb by (simp add: filter_empty_conv)
    then have f: "length (filter p xs) = Suc (length (filter p rest))" using xs pb by simp
    have "length rest < length xs" using xs by simp
    then have "length (closed_slices p rest) = length (filter p rest)" using 1 by blast
    then show ?thesis using f closed_slices_boundary[OF nb pb, of rest] xs by simp
  qed
qed

lemma closed_slices_nth:
  "i < length (filter p xs) \<Longrightarrow> closed_slices p xs ! i = slices_spec p xs ! i"
  by (simp add: closed_slices_def)

lemma closed_slices_append: "prefix (closed_slices p xs) (closed_slices p (xs @ tail))"
proof (induction xs rule: length_induct)
  case (1 xs)
  from boundary_cases[of xs p] show ?case
  proof
    assume nb: "\<forall>x\<in>set xs. \<not> p x"
    then show ?thesis by (simp add: closed_slices_no_boundary)
  next
    assume "\<exists>pre b rest. xs = pre @ b # rest \<and> (\<forall>x\<in>set pre. \<not> p x) \<and> p b"
    then obtain pre b rest where xs: "xs = pre @ b # rest" and nb: "\<forall>x\<in>set pre. \<not> p x" and pb: "p b"
      by blast
    have "length rest < length xs" using xs by simp
    then have ih: "prefix (closed_slices p rest) (closed_slices p (rest @ tail))" using 1 by blast
    have "closed_slices p (xs @ tail) = pre # closed_slices p (rest @ tail)"
      using closed_slices_boundary[OF nb pb, of "rest @ tail"] xs by simp
    then show ?thesis using ih closed_slices_boundary[OF nb pb, of rest] xs by simp
  qed
qed

lemma closed_slices_take: "prefix (closed_slices p (List.take m xs)) (closed_slices p xs)"
  using closed_slices_append[of p "List.take m xs" "List.drop m xs"] by simp

lemma parent_needed_le: "parent_needed p xs i \<le> length xs"
  by (induction xs arbitrary: i) auto

lemma parent_needed_reaches:
  "i < length (filter p xs) \<Longrightarrow> i < length (filter p (List.take (parent_needed p xs i) xs))"
proof (induction xs arbitrary: i)
  case Nil
  then show ?case by simp
next
  case (Cons x xs)
  show ?case
  proof (cases "p x")
    case True
    show ?thesis
    proof (cases i)
      case 0
      then show ?thesis using True by simp
    next
      case (Suc k)
      then have "k < length (filter p xs)" using Cons.prems True by simp
      from Cons.IH[OF this] show ?thesis using True Suc by simp
    qed
  next
    case False
    then have "i < length (filter p xs)" using Cons.prems by simp
    from Cons.IH[OF this] show ?thesis using False by simp
  qed
qed

lemma sliceBy_bucket_known:
  assumes b: "behaves sq P ev g"
    and xa: "\<forall>j<length xs. g (int j) = Opt_SOME (xs ! j)"
    and M: "length xs \<le> M"
  shows "List.drop p xs = pre @ bd # rest \<Longrightarrow> \<forall>x\<in>set pre. \<not> fn x \<Longrightarrow> fn bd \<Longrightarrow> P s \<Longrightarrow> ev s \<le> M \<Longrightarrow>
         \<exists>s'. sliceBy_bucket fn sq (int p) bucket s
                = Some (False, bucket @ pre, int (p + length pre + 1), s') \<and> P s' \<and> ev s' \<le> M"
proof (induction pre arbitrary: p s bucket)
  case Nil
  then have dr: "List.drop p xs = bd # rest" by simp
  then have lt: "p < length xs" by (metis drop_eq_Nil list.distinct(1) not_le)
  have x: "xs ! p = bd" using dr by (rule nth_via_drop)
  have gx: "g (int p) = Opt_SOME bd" using xa lt x by simp
  from iterator_next_behaves[OF b Nil.prems(4), of "int p"] gx
  obtain s1 where nx: "iterator_next sq (int p) s = Some (Yield bd, int p + 1, s1)" and p1: "P s1"
    and e1: "ev s1 \<le> max (ev s) (nat (int p + 1))"
    by (auto simp: fold_Option_def)
  have m1: "ev s1 \<le> M" using e1 Nil.prems(5) lt M by simp
  show ?case using nx p1 m1 Nil.prems(3) by (subst sliceBy_bucket.simps) simp
next
  case (Cons x pre')
  then have dr: "List.drop p xs = x # (pre' @ bd # rest)" by simp
  then have lt: "p < length xs" by (metis drop_eq_Nil list.distinct(1) not_le)
  have xp: "xs ! p = x" using dr by (rule nth_via_drop)
  have dr': "List.drop (Suc p) xs = pre' @ bd # rest" using dr by (simp add: drop_Suc tl_drop[symmetric])
  have nf: "\<not> fn x" and nb': "\<forall>x\<in>set pre'. \<not> fn x" using Cons.prems(2) by simp_all
  have gx: "g (int p) = Opt_SOME x" using xa lt xp by simp
  from iterator_next_behaves[OF b Cons.prems(4), of "int p"] gx
  obtain s1 where nx: "iterator_next sq (int p) s = Some (Yield x, int p + 1, s1)" and p1: "P s1"
    and e1: "ev s1 \<le> max (ev s) (nat (int p + 1))"
    by (auto simp: fold_Option_def)
  have m1: "ev s1 \<le> M" using e1 Cons.prems(5) lt M by simp
  from Cons.IH[OF dr' nb' Cons.prems(3) p1 m1, of "bucket @ [x]"]
  obtain s' where r: "sliceBy_bucket fn sq (int (Suc p)) (bucket @ [x]) s1
        = Some (False, (bucket @ [x]) @ pre', int (Suc p + length pre' + 1), s')"
    and ps': "P s'" and es': "ev s' \<le> M" by blast
  have "sliceBy_bucket fn sq (int p) bucket s = sliceBy_bucket fn sq (int (Suc p)) (bucket @ [x]) s1"
    using nx nf by (subst sliceBy_bucket.simps) (simp add: add.commute)
  then show ?case using r ps' es' by simp
qed

lemma sliceBy_next_known:
  assumes b: "behaves sq P ev g"
    and xa: "\<forall>j<length xs. g (int j) = Opt_SOME (xs ! j)"
    and M: "length xs \<le> M"
    and sc: "slice_cursor_known fn xs c rem" and ps: "P s" and es: "ev s \<le> M" and ne: "rem \<noteq> []"
  shows "\<exists>c' s'. next (sliceBy_source fn sq) c s = Some (Yield (Value (fromArray (hd rem))), c', s') \<and>
                 P s' \<and> ev s' \<le> M \<and> slice_cursor_known fn xs c' (tl rem)"
proof -
  from sc obtain p where p: "p \<le> length xs" and c: "c = (int p, False)"
    and rem: "rem = closed_slices fn (List.drop p xs)"
    by (cases c) (auto simp: slice_cursor_known_def)
  let ?r = "List.drop p xs"
  from boundary_cases[of ?r fn] ne rem
  obtain pre bd rest where r: "?r = pre @ bd # rest" and nb: "\<forall>x\<in>set pre. \<not> fn x" and fb: "fn bd"
    by (auto simp: closed_slices_no_boundary)
  from sliceBy_bucket_known[OF b xa M r nb fb ps es, of "[]"]
  obtain s' where bk: "sliceBy_bucket fn sq (int p) [] s
        = Some (False, pre, int (p + length pre + 1), s')" and ps': "P s'" and es': "ev s' \<le> M"
    by auto
  have r1: "rem = pre # closed_slices fn rest"
    using rem r closed_slices_boundary[OF nb fb, of rest] by simp
  have nx: "next (sliceBy_source fn sq) c s
              = Some (Yield (Value (fromArray pre)), (int (p + length pre + 1), False), s')"
    using bk c by (simp add: sliceBy_source_def)
  have len: "length ?r = length pre + 1 + length rest" using arg_cong[OF r, of length] by simp
  then have le: "p + length pre + 1 \<le> length xs" using p by simp
  have "List.drop (length pre + 1) ?r = rest" using r by simp
  then have dr: "List.drop (p + length pre + 1) xs = rest"
    by (simp add: add.commute add.left_commute)
  have "slice_cursor_known fn xs (int (p + length pre + 1), False) (closed_slices fn rest)"
    unfolding slice_cursor_known_def using le dr
    by (auto intro!: exI[of _ "p + length pre + 1"])
  then show ?thesis using nx ps' es' r1 by simp
qed

lemma sliceBy_yields_prefix:
  assumes b: "behaves sq P ev g"
    and xa: "\<forall>j<length xs. g (int j) = Opt_SOME (xs ! j)"
    and M: "length xs \<le> M"
  shows "yields_prefix (sliceBy_source fn sq)
           (\<lambda>n c. slice_cursor_known fn xs c (List.drop n (closed_slices fn xs)))
           (\<lambda>w. P w \<and> ev w \<le> M)
           (map (\<lambda>b. Value (fromArray b)) (closed_slices fn xs))"
  unfolding yields_prefix_def
proof (intro conjI allI impI)
  show "slice_cursor_known fn xs (fresh (sliceBy_source fn sq)) (List.drop 0 (closed_slices fn xs))"
    by (simp add: slice_cursor_known_def sliceBy_source_def)
next
  fix n c w
  let ?K = "closed_slices fn xs"
  let ?out = "map (\<lambda>b. Value (fromArray b)) ?K"
  assume h: "n < length ?out \<and> slice_cursor_known fn xs c (List.drop n ?K) \<and> (P w \<and> ev w \<le> M)"
  then have n: "n < length ?K" by simp
  have ne: "List.drop n ?K \<noteq> []" using n by simp
  have sc: "slice_cursor_known fn xs c (List.drop n ?K)" and ps: "P w" and es: "ev w \<le> M"
    using h by simp_all
  from sliceBy_next_known[OF b xa M sc ps es ne]
  obtain c' w' where st: "next (sliceBy_source fn sq) c w
        = Some (Yield (Value (fromArray (hd (List.drop n ?K)))), c', w')"
    and pw: "P w'" and ew: "ev w' \<le> M"
    and sc': "slice_cursor_known fn xs c' (tl (List.drop n ?K))" by blast
  have hd: "hd (List.drop n ?K) = ?K ! n" using n by (simp add: hd_drop_conv_nth)
  have nx: "next (sliceBy_source fn sq) c w = Some (Yield (?out ! n), c', w')"
    using st hd n by simp
  have "slice_cursor_known fn xs c' (List.drop (Suc n) ?K)"
    using sc' by (simp add: drop_Suc tl_drop)
  then show "\<exists>c' w'. next (sliceBy_source fn sq) c w = Some (Yield (?out ! n), c', w') \<and>
      slice_cursor_known fn xs c' (List.drop (Suc n) ?K) \<and> (P w' \<and> ev w' \<le> M)"
    using nx pw ew by blast
qed

lemma sliceBy_get_known:
  assumes b: "behaves sq P ev g" and ps: "P s"
    and xa: "\<forall>j<length xs. g (int j) = Opt_SOME (xs ! j)"
    and ck: "cache_known (map (\<lambda>b. Value (fromArray b)) (closed_slices fn xs)) cache"
    and i: "i < length (filter fn xs)"
  shows "\<exists>cache' s'. get (sliceBy fn sq) (int i) (cache, s)
            = Some (Opt_SOME (Value (fromArray (slices_spec fn xs ! i))), cache', s') \<and>
          P s' \<and> cache_known (map (\<lambda>b. Value (fromArray b)) (closed_slices fn xs)) cache' \<and>
          ev s' \<le> max (ev s) (length xs) \<and>
          prefix cache cache' \<and> length cache' \<le> max (length cache) (i + 1)"
proof -
  let ?out = "map (\<lambda>b. Value (fromArray b)) (closed_slices fn xs)"
  let ?M = "max (ev s) (length xs)"
  have M: "length xs \<le> ?M" by simp
  have iw: "P s \<and> ev s \<le> ?M" using ps by simp
  have il: "i < length ?out" using i by (simp add: length_closed_slices)
  then have idx: "0 \<le> int i" "int i < int (length ?out)" by simp_all
  from create_prefix[OF sliceBy_yields_prefix[OF b xa M] ck, of s "int i", OF iw idx]
  obtain cache' s' where g: "get (create (sliceBy_source fn sq)) (int i) (cache, s)
        = Some (optional (?out ! nat (int i)), cache', s')"
    and r: "cache_known ?out cache'" "P s'" "ev s' \<le> ?M" "prefix cache cache'"
      "length cache' \<le> max (length cache) (nat (int i) + 1)" by blast
  have "?out ! i = Value (fromArray (slices_spec fn xs ! i))"
    using il i by (simp add: closed_slices_nth)
  then have "optional (?out ! nat (int i)) = Opt_SOME (Value (fromArray (slices_spec fn xs ! i)))"
    by simp
  then show ?thesis using g r by (simp add: sliceBy_def)
qed

lemma sliceBy_get_needed:
  assumes b: "behaves sq P ev g" and ps: "P s"
    and xa: "\<forall>j<length xs. g (int j) = Opt_SOME (xs ! j)"
    and ck: "cache_known (map (\<lambda>b. Value (fromArray b)) (closed_slices fn xs)) cache"
    and i: "i < length (filter fn xs)"
  shows "\<exists>cache' s'. get (sliceBy fn sq) (int i) (cache, s)
            = Some (Opt_SOME (Value (fromArray (slices_spec fn xs ! i))), cache', s') \<and>
          P s' \<and> cache_known (map (\<lambda>b. Value (fromArray b)) (closed_slices fn xs)) cache' \<and>
          ev s' \<le> max (ev s) (parent_needed fn xs i)"
proof -
  let ?m = "parent_needed fn xs i"
  let ?xs = "List.take ?m xs"
  let ?f = "\<lambda>b. Value (fromArray b)"
  let ?out = "map ?f (closed_slices fn xs)"
  let ?out' = "map ?f (closed_slices fn ?xs)"
  have m: "?m \<le> length xs" by (rule parent_needed_le)
  have pf: "prefix ?out' ?out" by (intro map_mono_prefix closed_slices_take)
  have i': "i < length (filter fn ?xs)" by (rule parent_needed_reaches[OF i])
  have il: "i < length ?out'" using i' by (simp add: length_closed_slices)
  have xa': "\<forall>j<length ?xs. g (int j) = Opt_SOME (?xs ! j)" using xa by simp
  have ck': "cache_known ?out' cache" by (rule cache_known_prefix_out[OF ck pf])
  from sliceBy_get_known[OF b ps xa' ck' i']
  obtain cache' s' where g: "get (sliceBy fn sq) (int i) (cache, s)
        = Some (Opt_SOME (Value (fromArray (slices_spec fn ?xs ! i))), cache', s')"
    and r: "P s'" "cache_known ?out' cache'" "ev s' \<le> max (ev s) (length ?xs)"
      "prefix cache cache'" "length cache' \<le> max (length cache) (i + 1)" by blast
  have "closed_slices fn ?xs ! i = closed_slices fn xs ! i"
    using prefix_nth[OF closed_slices_take, of i fn ?m xs] i' by (simp add: length_closed_slices)
  then have e: "slices_spec fn ?xs ! i = slices_spec fn xs ! i"
    using i i' by (simp add: closed_slices_nth)
  have c: "cache_known ?out cache'" by (rule cache_known_extend[OF ck r(2) pf r(4) r(5) il])
  have "length ?xs = ?m" using m by simp
  then show ?thesis using g r(1) r(3) e c by simp
qed


text \<open>
  C5. For a sequence with the elements \<open>xs\<close>, \<open>sliceBy(pred)\<close> materializes to the sequences
  \<open>fromArray(b)\<close> for the slices \<open>b\<close> of \<open>xs\<close>, where: the empty list has no slice; a
  non-empty list without a boundary has exactly one slice, itself; a list with a first
  boundary splits there, the elements before it forming a slice, the boundary belonging
  to no slice, and the rest sliced likewise; in particular a leading boundary gives an
  empty first slice. \<open>fromArray([1,0,2,0,3]).sliceBy(x => x === 0)\<close> yields the sequences
  of \<open>[1]\<close>, \<open>[2]\<close>, \<open>[3]\<close>, and \<open>fromArray([0,1,2]).sliceBy(x => x === 0)\<close> those of \<open>[]\<close>
  and \<open>[1,2]\<close>.

  The same holds slice by slice, for a sequence that need not end. When the sequence
  begins with \<open>xs\<close> and \<open>xs\<close> holds more than \<open>i\<close> boundaries, \<open>get(i)\<close> of the sliced sequence,
  in any state whose cache agrees with the slices that the boundaries of \<open>xs\<close> close,
  returns the sequence \<open>fromArray(b)\<close> for slice number \<open>i\<close> of \<open>xs\<close>, and it evaluates the
  sliced sequence no further than the boundary that closes this slice: afterwards the
  sequence has \<open>parent_needed pred xs i\<close> positions evaluated, or as many as it had
  before.
\<close>

theorem sliceBy_splits_at_boundaries:
  "(behaves sq P ev g \<and> P s \<and> (\<forall>j<length xs. g (int j) = Opt_SOME (xs ! j)) \<and>
      g (int (length xs)) = Opt_NONE \<longrightarrow>
        (\<exists>s'. toArrayUnsafe (sliceBy fn sq) (new_cache s)
               = Some (map (\<lambda>b. Value (fromArray b)) (slices_spec fn xs), s')))
   \<and> slices_spec fn [] = []
   \<and> (xs \<noteq> [] \<and> (\<forall>x\<in>set xs. \<not> fn x) \<longrightarrow> slices_spec fn xs = [xs])
   \<and> ((\<forall>x\<in>set pre. \<not> fn x) \<and> fn b \<longrightarrow>
        slices_spec fn (pre @ b # rest) = pre # slices_spec fn rest)
   \<and> (fn b \<longrightarrow> slices_spec fn (b # rest) = [] # slices_spec fn rest)
   \<and> toArrayUnsafe (sliceBy is_zero (fromArray [Value 1, Value 0, Value 2, Value 0, Value 3]))
         (new_cache (new_cache ()))
       = Some ([Value (fromArray [Value 1]), Value (fromArray [Value 2]), Value (fromArray [Value 3])],
               [Value (fromArray [Value 1]), Value (fromArray [Value 2]), Value (fromArray [Value 3])],
               [Value 1, Value 0, Value 2, Value 0, Value 3], ())
   \<and> toArrayUnsafe (sliceBy is_zero (fromArray [Value 0, Value 1, Value 2]))
         (new_cache (new_cache ()))
       = Some ([Value (fromArray []), Value (fromArray [Value 1, Value 2])],
               [Value (fromArray []), Value (fromArray [Value 1, Value 2])],
               [Value 0, Value 1, Value 2], ())
   \<and> (behaves sq P ev g \<and> P s \<and> (\<forall>j<length xs. g (int j) = Opt_SOME (xs ! j)) \<and>
       cache_known (map (\<lambda>b. Value (fromArray b)) (closed_slices fn xs)) cache \<and>
       i < length (filter fn xs) \<longrightarrow>
         (\<exists>cache' s'. get (sliceBy fn sq) (int i) (cache, s)
                         = Some (Opt_SOME (Value (fromArray (slices_spec fn xs ! i))), cache', s') \<and>
                       P s' \<and>
                       cache_known (map (\<lambda>b. Value (fromArray b)) (closed_slices fn xs)) cache' \<and>
                       ev s' \<le> max (ev s) (parent_needed fn xs i)))"
proof (intro conjI impI)
  assume h: "behaves sq P ev g \<and> P s \<and> (\<forall>j<length xs. g (int j) = Opt_SOME (xs ! j)) \<and>
      g (int (length xs)) = Opt_NONE"
  then have b: "behaves sq P ev g" and ps: "P s"
    and xa: "\<forall>j<length xs. g (int j) = Opt_SOME (xs ! j)"
    and xz: "g (int (length xs)) = Opt_NONE" by simp_all
  show "\<exists>s'. toArrayUnsafe (sliceBy fn sq) (new_cache s)
               = Some (map (\<lambda>b. Value (fromArray b)) (slices_spec fn xs), s')"
    by (rule sliceBy_consume[OF b ps xa xz])
next
  show "slices_spec fn [] = []" by simp
next
  assume "xs \<noteq> [] \<and> (\<forall>x\<in>set xs. \<not> fn x)"
  then show "slices_spec fn xs = [xs]" by (simp add: slices_spec_no_boundary)
next
  assume "(\<forall>x\<in>set pre. \<not> fn x) \<and> fn b"
  then show "slices_spec fn (pre @ b # rest) = pre # slices_spec fn rest"
    by (simp add: slices_spec_boundary)
next
  assume "fn b"
  then show "slices_spec fn (b # rest) = [] # slices_spec fn rest"
    using slices_spec_boundary[of "[]" fn b rest] by simp
next
  show "toArrayUnsafe (sliceBy is_zero (fromArray [Value 1, Value 0, Value 2, Value 0, Value 3]))
         (new_cache (new_cache ()))
       = Some ([Value (fromArray [Value 1]), Value (fromArray [Value 2]), Value (fromArray [Value 3])],
               [Value (fromArray [Value 1]), Value (fromArray [Value 2]), Value (fromArray [Value 3])],
               [Value 1, Value 0, Value 2, Value 0, Value 3], ())"
    by (simp add: engine_eval fromArray_source_def sliceBy_eval is_zero_def
        fromArray_def[of "[Value 1, Value 0, Value 2, Value 0, Value 3]"])
next
  show "toArrayUnsafe (sliceBy is_zero (fromArray [Value 0, Value 1, Value 2]))
         (new_cache (new_cache ()))
       = Some ([Value (fromArray []), Value (fromArray [Value 1, Value 2])],
               [Value (fromArray []), Value (fromArray [Value 1, Value 2])],
               [Value 0, Value 1, Value 2], ())"
    by (simp add: engine_eval fromArray_source_def sliceBy_eval is_zero_def
        fromArray_def[of "[Value 0, Value 1, Value 2]"])
next
  assume h: "behaves sq P ev g \<and> P s \<and> (\<forall>j<length xs. g (int j) = Opt_SOME (xs ! j)) \<and>
       cache_known (map (\<lambda>b. Value (fromArray b)) (closed_slices fn xs)) cache \<and>
       i < length (filter fn xs)"
  then have b: "behaves sq P ev g" and ps: "P s"
    and xa: "\<forall>j<length xs. g (int j) = Opt_SOME (xs ! j)"
    and ck: "cache_known (map (\<lambda>b. Value (fromArray b)) (closed_slices fn xs)) cache"
    and i: "i < length (filter fn xs)" by simp_all
  show "\<exists>cache' s'. get (sliceBy fn sq) (int i) (cache, s)
                         = Some (Opt_SOME (Value (fromArray (slices_spec fn xs ! i))), cache', s') \<and>
                       P s' \<and>
                       cache_known (map (\<lambda>b. Value (fromArray b)) (closed_slices fn xs)) cache' \<and>
                       ev s' \<le> max (ev s) (parent_needed fn xs i)"
    by (rule sliceBy_get_needed[OF b ps xa ck i])
qed

theorem sliceBy_splits_at_boundaries_witness:
  "(\<exists>s'. toArrayUnsafe (sliceBy is_zero (fromArray [Value 1, Value 0, Value 2, Value 0, Value 3]))
            (new_cache (new_cache ()))
          = Some ([Value (fromArray [Value 1]), Value (fromArray [Value 2]),
                   Value (fromArray [Value 3])], s')) \<and>
   slices_spec is_zero [Value 7, Value 8] = [[Value 7, Value 8]] \<and>
   slices_spec is_zero [Value 0, Value 1, Value 2] = [[], [Value 1, Value 2]] \<and>
   (\<exists>cache' s'. get (sliceBy is_multiple_of_three (range 1 Infinity)) 1 ([], new_cache ())
                   = Some (Opt_SOME (Value (fromArray [Value 4, Value 5])), cache', s') \<and>
                 evaluated s' \<le> 6) \<and>
   get (sliceBy is_multiple_of_three (range 1 Infinity)) 1 ([], new_cache ())
     = Some (Opt_SOME (Value (fromArray [Value 4, Value 5])),
             [Value (fromArray [Value 1, Value 2]), Value (fromArray [Value 4, Value 5])],
             [Value 1, Value 2, Value 3, Value 4, Value 5, Value 6], ())"
proof -
  let ?xs = "[Value (1::int), Value 0, Value 2, Value 0, Value 3]"
  let ?g = "element (array_sem ?xs)"
  note th = sliceBy_splits_at_boundaries
  have nn: "\<forall>v\<in>set ?xs. \<not> isNil v" by simp
  have h1: "behaves (fromArray ?xs) (cache_inv (array_sem ?xs) any_world) evaluated ?g \<and>
      cache_inv (array_sem ?xs) any_world (new_cache ()) \<and>
      (\<forall>j<length ?xs. ?g (int j) = Opt_SOME (?xs ! j)) \<and> ?g (int (length ?xs)) = Opt_NONE"
    using fromArray_behaves[of ?xs] new_cache_inv[of ?xs] fromArray_nil_free_visible[OF nn]
    by blast
  have sl: "slices_spec is_zero ?xs = [[Value 1], [Value 2], [Value 3]]"
    by (simp add: slices_spec.simps is_zero_def)
  have r1: "\<exists>s'. toArrayUnsafe (sliceBy is_zero (fromArray ?xs)) (new_cache (new_cache ()))
          = Some ([Value (fromArray [Value 1]), Value (fromArray [Value 2]),
                   Value (fromArray [Value 3])], s')"
    using th[where sq = "fromArray ?xs" and P = "cache_inv (array_sem ?xs) any_world"
        and ev = evaluated and g = ?g and s = "new_cache ()" and xs = ?xs and fn = is_zero,
        THEN conjunct1, THEN mp, OF h1]
    by (simp add: sl)
  have h2: "[Value (7::int), Value 8] \<noteq> [] \<and> (\<forall>x\<in>set [Value (7::int), Value 8]. \<not> is_zero x)"
    by (simp add: is_zero_def)
  have r2: "slices_spec is_zero [Value 7, Value 8] = [[Value 7, Value 8]]"
    using th[where xs = "[Value 7, Value 8]" and fn = is_zero,
        THEN conjunct2, THEN conjunct2, THEN conjunct1, THEN mp, OF h2] .
  have h3: "is_zero (Value 0)" by (simp add: is_zero_def)
  have h4: "[Value (1::int), Value 2] \<noteq> [] \<and> (\<forall>x\<in>set [Value (1::int), Value 2]. \<not> is_zero x)"
    by (simp add: is_zero_def)
  have r3: "slices_spec is_zero [Value 0, Value 1, Value 2] = [[], [Value 1, Value 2]]"
    using th[where b = "Value 0" and rest = "[Value 1, Value 2]" and fn = is_zero,
        THEN conjunct2, THEN conjunct2, THEN conjunct2, THEN conjunct2, THEN conjunct1, THEN mp, OF h3]
      th[where xs = "[Value 1, Value 2]" and fn = is_zero,
        THEN conjunct2, THEN conjunct2, THEN conjunct1, THEN mp, OF h4]
    by simp
  let ?ys = "[Value (1::int), Value 2, Value 3, Value 4, Value 5, Value 6]"
  let ?r = "range 1 Infinity"
  have xr: "\<forall>j<length ?ys. element (range_sem 1) (int j) = Opt_SOME (?ys ! j)"
  proof (intro allI impI)
    fix j assume "j < length ?ys"
    then have "j = 0 \<or> j = 1 \<or> j = 2 \<or> j = 3 \<or> j = 4 \<or> j = 5" by auto
    then show "element (range_sem 1) (int j) = Opt_SOME (?ys ! j)"
      by (auto simp: element_range)
  qed
  have fl: "filter is_multiple_of_three ?ys = [Value 3, Value 6]"
    by (simp add: is_multiple_of_three_def)
  have sp: "slices_spec is_multiple_of_three ?ys = [[Value 1, Value 2], [Value 4, Value 5]]"
    by (simp add: slices_spec.simps is_multiple_of_three_def)
  have pn: "parent_needed is_multiple_of_three ?ys 1 = 6"
    by (simp add: is_multiple_of_three_def)
  have h5: "behaves ?r (cache_inv (range_sem 1) any_world) evaluated (element (range_sem 1)) \<and>
      cache_inv (range_sem 1) any_world (new_cache ()) \<and>
      (\<forall>j<length ?ys. element (range_sem 1) (int j) = Opt_SOME (?ys ! j)) \<and>
      cache_known (map (\<lambda>b. Value (fromArray b)) (closed_slices is_multiple_of_three ?ys)) [] \<and>
      1 < length (filter is_multiple_of_three ?ys)"
    using range_behaves[of 1] range_new_cache[of 1] xr fl by (simp add: cache_known_def)
  have r4: "\<exists>cache' s'. get (sliceBy is_multiple_of_three ?r) 1 ([], new_cache ())
                   = Some (Opt_SOME (Value (fromArray [Value 4, Value 5])), cache', s') \<and>
                 evaluated s' \<le> 6"
    using sliceBy_splits_at_boundaries[where sq = ?r and fn = is_multiple_of_three
        and s = "new_cache ()" and xs = ?ys and P = "cache_inv (range_sem 1) any_world"
        and ev = evaluated and g = "element (range_sem 1)" and cache = "[]" and i = 1,
        THEN conjunct2, THEN conjunct2, THEN conjunct2, THEN conjunct2, THEN conjunct2,
        THEN conjunct2, THEN conjunct2, THEN mp, OF h5]
    unfolding sp pn by (simp add: evaluated_def new_cache_def) auto
  have e4: "get (sliceBy is_multiple_of_three ?r) 1 ([], new_cache ())
     = Some (Opt_SOME (Value (fromArray [Value 4, Value 5])),
             [Value (fromArray [Value 1, Value 2]), Value (fromArray [Value 4, Value 5])],
             [Value 1, Value 2, Value 3, Value 4, Value 5, Value 6], ())"
    by (simp add: engine_eval sliceBy_eval range_eval is_multiple_of_three_def)
  show ?thesis using r1 r2 r3 r4 e4 by (intro conjI)
qed

end
